theory Spec2Isabelle
  imports Complex_Main "HOL-Library.Product_Lexorder"
begin

section \<open>Datapoints API limits\<close>

text \<open>The constants of \<^verbatim>\<open>datapoint_constants.py\<close>.\<close>

definition DPS_LIMIT_AGG :: int where
  "DPS_LIMIT_AGG = 10000"

definition DPS_LIMIT :: int where
  "DPS_LIMIT = 100000"

definition FETCH_TS_LIMIT :: int where
  "FETCH_TS_LIMIT = 100"

section \<open>Initial query limits\<close>

text \<open>
  \<^verbatim>\<open>ChunkingDpsFetcher._find_initial_query_limits(limits, max_limit)\<close>.
  The three mutable locals of the method are the fields of the loop state; the index sets
  \<^verbatim>\<open>not_done\<close> and \<^verbatim>\<open>rm_idx\<close> are lists of indices. Each index
  touches only its own cells of \<^verbatim>\<open>actual_lims\<close> and \<^verbatim>\<open>limits\<close>, and
  \<^verbatim>\<open>max_limit\<close> is only decremented, so the order in which Python iterates the set
  does not influence the result; the model visits the indices in list order.
\<close>

record limit_state =
  actual_lims :: "int list"
  limits :: "int list"
  max_limit :: int

text \<open>The body of \<^verbatim>\<open>for i in not_done\<close>, with \<^verbatim>\<open>part\<close> fixed by the caller.\<close>

fun for_not_done :: "int \<Rightarrow> nat list \<Rightarrow> limit_state \<Rightarrow> nat list \<Rightarrow> limit_state \<times> nat list" where
  "for_not_done part [] s rm_idx = (s, rm_idx)"
| "for_not_done part (i # rest) s rm_idx =
     (let i_part = min part (limits s ! i);
          s1 = s\<lparr>actual_lims := (actual_lims s)[i := actual_lims s ! i + i_part],
                 max_limit := max_limit s - i_part\<rparr>
      in if i_part = limits s ! i
         then for_not_done part rest s1 (i # rm_idx)
         else for_not_done part rest (s1\<lparr>limits := (limits s)[i := limits s ! i - i_part]\<rparr>) rm_idx)"

lemma for_not_done_rm_idx:
  "for_not_done part idxs s rm0 = (s', rm) \<Longrightarrow> set rm0 \<subseteq> set rm \<and> set rm \<subseteq> set rm0 \<union> set idxs"
proof (induction idxs arbitrary: s rm0)
  case Nil
  then show ?case by simp
next
  case (Cons i rest)
  from Cons.prems show ?case
    by (auto simp: Let_def split: if_splits dest!: Cons.IH)
qed

lemma for_not_done_none_removed:
  "for_not_done part idxs s rm0 = (s', rm) \<Longrightarrow> set rm \<inter> set idxs = {} \<Longrightarrow>
   max_limit s' = max_limit s - part * int (length idxs)"
proof (induction idxs arbitrary: s rm0)
  case Nil
  then show ?case by simp
next
  case (Cons i rest)
  from Cons.prems(2) have d: "set rm \<inter> set rest = {}" and i: "i \<notin> set rm" by auto
  show ?case
  proof (cases "min part (limits s ! i) = limits s ! i")
    case True
    with Cons.prems(1) obtain s1 where run: "for_not_done part rest s1 (i # rm0) = (s', rm)"
      by (simp add: Let_def)
    from for_not_done_rm_idx[OF run] i show ?thesis by auto
  next
    case False
    then have part: "min part (limits s ! i) = part" by linarith
    from False Cons.prems(1) obtain s1 where run: "for_not_done part rest s1 rm0 = (s', rm)"
      and m: "max_limit s1 = max_limit s - part"
      by (simp add: Let_def part)
    from Cons.IH[OF run d] m show ?thesis by (simp add: algebra_simps)
  qed
qed

function while_not_done :: "nat list \<Rightarrow> limit_state \<Rightarrow> limit_state" where
  "while_not_done not_done s =
     (if not_done = [] then s
      else let part = max_limit s div int (length not_done) in
        if part = 0 then s
        else (case for_not_done part not_done s [] of
                (s', rm_idx) \<Rightarrow> while_not_done (filter (\<lambda>i. i \<notin> set rm_idx) not_done) s'))"
  by pat_completeness auto
termination
proof (relation "measures [\<lambda>(nd, s). length nd,
                           \<lambda>(nd, s). if max_limit s < 0 then length nd else nat (max_limit s)]",
       goal_cases)
  case 1
  then show ?case by simp
next
  case (2 not_done s part s' rm_idx)
  from 2(4) have run: "for_not_done part not_done s [] = (s', rm_idx)" by simp
  let ?nd' = "filter (\<lambda>i. i \<notin> set rm_idx) not_done"
  have le: "length ?nd' \<le> length not_done" by simp
  show ?case
  proof (cases "length ?nd' < length not_done")
    case True
    then show ?thesis by simp
  next
    case False
    with le have eq: "length ?nd' = length not_done" by linarith
    then have "\<forall>i \<in> set not_done. i \<notin> set rm_idx"
      by (metis (mono_tags, lifting) length_filter_less less_irrefl)
    then have "set rm_idx \<inter> set not_done = {}" by auto
    from for_not_done_none_removed[OF run this]
    have m': "max_limit s' = max_limit s - part * int (length not_done)" .
    have n: "0 < int (length not_done)" using 2(1) by simp
    have p: "part = max_limit s div int (length not_done)" using 2(2) by simp
    have m'': "max_limit s' = max_limit s mod int (length not_done)"
      using m' p by (simp add: minus_mult_div_eq_mod mult.commute)
    have r0: "0 \<le> max_limit s'" and r1: "max_limit s' < int (length not_done)"
      using m'' n by simp_all
    have "max_limit s \<ge> 0 \<Longrightarrow> max_limit s \<ge> int (length not_done)"
      using 2(3) p n by (metis div_pos_pos_trivial not_le)
    with r0 r1 eq show ?thesis by auto
  qed
qed

declare while_not_done.simps [simp del]

definition find_initial_query_limits :: "int list \<Rightarrow> int \<Rightarrow> int list" where
  "find_initial_query_limits lims max_lim =
     actual_lims (while_not_done [0..<length lims]
       \<lparr>actual_lims = replicate (length lims) 0, limits = lims, max_limit = max_lim\<rparr>)"


lemma sum_list_add_at:
  "i < length xs \<Longrightarrow> sum_list (xs[i := xs ! i + d]) = sum_list xs + (d::int)"
  by (induction xs arbitrary: i) (auto split: nat.splits)

lemma for_not_done_round:
  "for_not_done part idxs s rm0 = (s', rm) \<Longrightarrow> distinct idxs \<Longrightarrow>
   \<forall>i \<in> set idxs. i < length (actual_lims s) \<and> i < length (limits s) \<Longrightarrow>
   length (actual_lims s') = length (actual_lims s) \<and>
   length (limits s') = length (limits s) \<and>
   (\<forall>j. actual_lims s' ! j =
        actual_lims s ! j + (if j \<in> set idxs then min part (limits s ! j) else 0)) \<and>
   (\<forall>j. limits s' ! j =
        (if j \<in> set idxs \<and> part < limits s ! j then limits s ! j - part else limits s ! j)) \<and>
   max_limit s' = max_limit s - (\<Sum>i\<leftarrow>idxs. min part (limits s ! i)) \<and>
   sum_list (actual_lims s') = sum_list (actual_lims s) + (\<Sum>i\<leftarrow>idxs. min part (limits s ! i)) \<and>
   set rm = set rm0 \<union> {i \<in> set idxs. limits s ! i \<le> part}"
proof (induction idxs arbitrary: s rm0)
  case Nil
  then show ?case by simp
next
  case (Cons i rest)
  let ?ip = "min part (limits s ! i)"
  let ?s1 = "s\<lparr>actual_lims := (actual_lims s)[i := actual_lims s ! i + ?ip],
                max_limit := max_limit s - ?ip\<rparr>"
  let ?s2 = "?s1\<lparr>limits := (limits s)[i := limits s ! i - ?ip]\<rparr>"
  from Cons.prems have i: "i < length (actual_lims s)" "i < length (limits s)" "i \<notin> set rest"
    and d: "distinct rest" by auto
  have sumupd: "sum_list ((actual_lims s)[i := actual_lims s ! i + ?ip]) = sum_list (actual_lims s) + ?ip"
    using i(1) by (rule sum_list_add_at)
  have same: "(\<Sum>k\<leftarrow>rest. min part ((limits s)[i := x] ! k)) = (\<Sum>k\<leftarrow>rest. min part (limits s ! k))" for x
  proof -
    have "k \<in> set rest \<Longrightarrow> (limits s)[i := x] ! k = limits s ! k" for k
      using i(3) by (cases "k = i") simp_all
    then show ?thesis by (intro arg_cong[where f=sum_list] map_cong) simp_all
  qed
  show ?case
  proof (cases "?ip = limits s ! i")
    case True
    with Cons.prems(1) have run: "for_not_done part rest ?s1 (i # rm0) = (s', rm)"
      by (simp add: Let_def)
    have r: "\<forall>k \<in> set rest. k < length (actual_lims ?s1) \<and> k < length (limits ?s1)"
      using Cons.prems(3) by simp
    from True have le: "limits s ! i \<le> part" by linarith
    from Cons.IH[OF run d r] i sumupd True le show ?thesis
      by (auto simp: nth_list_update)
  next
    case False
    then have lt: "part < limits s ! i" and ip: "?ip = part" by linarith+
    from Cons.prems(1) lt have run: "for_not_done part rest ?s2 rm0 = (s', rm)"
      by (simp add: Let_def)
    have r: "\<forall>k \<in> set rest. k < length (actual_lims ?s2) \<and> k < length (limits ?s2)"
      using Cons.prems(3) by simp
    from Cons.IH[OF run d r] i sumupd lt ip same show ?thesis
      by (auto simp: nth_list_update)
  qed
qed


definition limits_inv :: "int list \<Rightarrow> int \<Rightarrow> nat list \<Rightarrow> limit_state \<Rightarrow> bool" where
  "limits_inv L M nd s \<longleftrightarrow>
     length (actual_lims s) = length L \<and> length (limits s) = length L \<and>
     distinct nd \<and> (\<forall>i \<in> set nd. i < length L) \<and> 0 \<le> max_limit s \<and>
     sum_list (actual_lims s) + max_limit s = M \<and>
     (\<forall>j < length L. 0 \<le> actual_lims s ! j \<and> actual_lims s ! j \<le> L ! j \<and>
        (j \<in> set nd \<longrightarrow> 0 \<le> limits s ! j \<and> actual_lims s ! j + limits s ! j = L ! j))"

lemma round_total_le:
  assumes "nd \<noteq> []"
  shows "(\<Sum>i\<leftarrow>nd. min (m div int (length nd)) (f i)) \<le> m"
proof -
  let ?p = "m div int (length nd)"
  have "(\<Sum>i\<leftarrow>nd. min ?p (f i)) \<le> (\<Sum>i\<leftarrow>nd. ?p)"
    by (rule sum_list_mono) simp
  also have "\<dots> = int (length nd) * ?p" by (simp add: sum_list_triv)
  also have "\<dots> \<le> m"
  proof -
    have "int (length nd) * ?p + m mod int (length nd) = m" by simp
    moreover have "0 \<le> m mod int (length nd)" using assms by simp
    ultimately show ?thesis by linarith
  qed
  finally show ?thesis .
qed


lemma limits_inv_round:
  assumes inv: "limits_inv L M nd s" and ne: "nd \<noteq> []"
    and part: "part = max_limit s div int (length nd)" and nz: "part \<noteq> 0"
    and run: "for_not_done part nd s [] = (s', rm)"
  shows "limits_inv L M (filter (\<lambda>i. i \<notin> set rm) nd) s'"
proof -
  from inv have len: "length (actual_lims s) = length L" "length (limits s) = length L"
    and d: "distinct nd" and rng: "\<forall>i \<in> set nd. i < length L" and m0: "0 \<le> max_limit s"
    and tot: "sum_list (actual_lims s) + max_limit s = M"
    and cells: "\<forall>j < length L. 0 \<le> actual_lims s ! j \<and> actual_lims s ! j \<le> L ! j \<and>
        (j \<in> set nd \<longrightarrow> 0 \<le> limits s ! j \<and> actual_lims s ! j + limits s ! j = L ! j)"
    by (simp_all add: limits_inv_def)
  have rng': "\<forall>i \<in> set nd. i < length (actual_lims s) \<and> i < length (limits s)"
    using rng len by simp
  have pos: "0 < part"
  proof -
    have "0 \<le> part" using m0 part ne by (simp add: pos_imp_zdiv_nonneg_iff)
    with nz show ?thesis by simp
  qed
  note r = for_not_done_round[OF run d rng']
  from r have len': "length (actual_lims s') = length L" "length (limits s') = length L"
    using len by simp_all
  from r have act: "\<And>j. actual_lims s' ! j =
        actual_lims s ! j + (if j \<in> set nd then min part (limits s ! j) else 0)" by blast
  from r have lim: "\<And>j. limits s' ! j =
        (if j \<in> set nd \<and> part < limits s ! j then limits s ! j - part else limits s ! j)" by blast
  from r have mx: "max_limit s' = max_limit s - (\<Sum>i\<leftarrow>nd. min part (limits s ! i))" by blast
  from r have sm: "sum_list (actual_lims s') =
        sum_list (actual_lims s) + (\<Sum>i\<leftarrow>nd. min part (limits s ! i))" by blast
  from r have rm: "set rm = {i \<in> set nd. limits s ! i \<le> part}" by simp
  have "(\<Sum>i\<leftarrow>nd. min part (limits s ! i)) \<le> max_limit s"
    unfolding part by (rule round_total_le[OF ne])
  with mx have m0': "0 \<le> max_limit s'" by simp
  from mx sm tot have tot': "sum_list (actual_lims s') + max_limit s' = M" by simp
  have cells': "0 \<le> actual_lims s' ! j \<and> actual_lims s' ! j \<le> L ! j \<and>
        (j \<in> set (filter (\<lambda>i. i \<notin> set rm) nd) \<longrightarrow>
           0 \<le> limits s' ! j \<and> actual_lims s' ! j + limits s' ! j = L ! j)"
    if "j < length L" for j
  proof (cases "j \<in> set nd")
    case False
    with cells that act[of j] show ?thesis by simp
  next
    case True
    with cells that have c: "0 \<le> actual_lims s ! j" "0 \<le> limits s ! j"
      "actual_lims s ! j + limits s ! j = L ! j" by auto
    show ?thesis
    proof (cases "limits s ! j \<le> part")
      case le: True
      with True rm have "j \<in> set rm" by simp
      with c le True act[of j] show ?thesis by simp
    next
      case gt: False
      with True rm have "j \<notin> set rm" by simp
      with c gt True act[of j] lim[of j] pos show ?thesis by simp
    qed
  qed
  show ?thesis
    unfolding limits_inv_def using len' d rng m0' tot' cells' by simp
qed

lemma limits_inv_while:
  "limits_inv L M nd s \<Longrightarrow> \<exists>nd'. limits_inv L M nd' (while_not_done nd s)"
proof (induction nd s rule: while_not_done.induct)
  case (1 not_done s)
  show ?case
  proof (cases "not_done = [] \<or> max_limit s div int (length not_done) = 0")
    case True
    then have "while_not_done not_done s = s"
      by (subst while_not_done.simps) (auto simp: Let_def)
    with "1.prems" show ?thesis by auto
  next
    case False
    obtain s' rm where run: "for_not_done (max_limit s div int (length not_done)) not_done s [] = (s', rm)"
      by (cases "for_not_done (max_limit s div int (length not_done)) not_done s []")
    from False have ne: "not_done \<noteq> []" and nz: "max_limit s div int (length not_done) \<noteq> 0" by simp_all
    have "limits_inv L M (filter (\<lambda>i. i \<notin> set rm) not_done) s'"
      by (rule limits_inv_round[OF "1.prems" ne refl nz run])
    from "1.IH"[OF ne refl nz run[symmetric] this] obtain nd' where
      "limits_inv L M nd' (while_not_done (filter (\<lambda>i. i \<notin> set rm) not_done) s')" by blast
    moreover have "while_not_done not_done s = while_not_done (filter (\<lambda>i. i \<notin> set rm) not_done) s'"
      using ne nz run by (subst while_not_done.simps) (simp add: Let_def)
    ultimately show ?thesis by auto
  qed
qed

subsection \<open>The even-share algorithm in the specification's words\<close>

text \<open>
  A second definition, written from the specification rather than from the code: every
  series carries what it has been granted, what remains of its own cap, and whether it is
  still active. One round gives each active series the floor of the remaining total divided
  by the number of active series, capped at the series' remaining cap; a series whose cap
  is met leaves the active set. Rounds repeat until no whole share can be handed out.
\<close>

record series =
  granted :: int
  remaining :: int
  active :: bool

definition grant :: "int \<Rightarrow> series \<Rightarrow> series" where
  "grant share x =
     (if active x
      then \<lparr>granted = granted x + min share (remaining x),
            remaining = remaining x - min share (remaining x),
            active = (share < remaining x)\<rparr>
      else x)"

lemma grant_round:
  "length (filter active (map (grant c) xs)) \<le> length (filter active xs) \<and>
   (length (filter active (map (grant c) xs)) = length (filter active xs) \<longrightarrow>
      sum_list (map granted (map (grant c) xs)) =
      sum_list (map granted xs) + c * int (length (filter active xs)))"
proof (induction xs)
  case Nil
  then show ?case by simp
next
  case (Cons x xs)
  then show ?case
    by (cases "active x"; cases "c < remaining x") (auto simp: grant_def algebra_simps)
qed

function even_share :: "int \<Rightarrow> series list \<Rightarrow> series list" where
  "even_share cap xs =
     (let n = length (filter active xs);
          share = (cap - sum_list (map granted xs)) div int n
      in if n = 0 \<or> share < 1 then xs
         else even_share cap (map (grant share) xs))"
  by pat_completeness auto
termination
proof (relation "measures [\<lambda>(cap, xs). length (filter active xs),
                           \<lambda>(cap, xs). nat (cap - sum_list (map granted xs))]",
       goal_cases)
  case 1
  then show ?case by simp
next
  case (2 cap xs n share)
  let ?pot = "cap - sum_list (map granted xs)"
  from 2 have n: "0 < n" and sh: "1 \<le> share" and shd: "share = ?pot div int n"
    and nd: "n = length (filter active xs)" by auto
  have e: "int n * share + ?pot mod int n = ?pot" unfolding shd by simp
  have m: "0 \<le> ?pot mod int n" using n by simp
  have l: "int n \<le> int n * share" using sh n by simp
  have big: "share * int n \<le> ?pot" using e m by (simp add: mult.commute)
  have pos: "0 < share * int n" using l n by (simp add: mult.commute)
  note g = grant_round[of share xs]
  show ?case
  proof (cases "length (filter active (map (grant share) xs)) < length (filter active xs)")
    case True
    then show ?thesis by simp
  next
    case False
    with g have eq: "length (filter active (map (grant share) xs)) = length (filter active xs)"
      by linarith
    with g have "sum_list (map granted (map (grant share) xs)) =
      sum_list (map granted xs) + share * int n" unfolding nd by blast
    with big pos eq show ?thesis by simp
  qed
qed

declare even_share.simps [simp del]

definition distribute_limits :: "int list \<Rightarrow> int \<Rightarrow> int list" where
  "distribute_limits lims cap =
     map granted (even_share cap (map (\<lambda>l. \<lparr>granted = 0, remaining = l, active = True\<rparr>) lims))"



definition share_rel :: "nat list \<Rightarrow> limit_state \<Rightarrow> series list \<Rightarrow> bool" where
  "share_rel nd s xs \<longleftrightarrow>
     length xs = length (actual_lims s) \<and>
     (\<forall>j < length xs. granted (xs ! j) = actual_lims s ! j \<and>
        (active (xs ! j) \<longleftrightarrow> j \<in> set nd) \<and>
        (j \<in> set nd \<longrightarrow> remaining (xs ! j) = limits s ! j))"

lemma share_rel_granted: "share_rel nd s xs \<Longrightarrow> map granted xs = actual_lims s"
  by (rule nth_equalityI) (simp_all add: share_rel_def)

lemma share_rel_active:
  assumes "share_rel nd s xs" "distinct nd" "\<forall>i \<in> set nd. i < length xs"
  shows "length (filter active xs) = length nd"
proof -
  have "{i. i < length xs \<and> active (xs ! i)} = set nd"
    using assms(1,3) by (auto simp: share_rel_def)
  then have "length (filter active xs) = card (set nd)"
    by (simp add: length_filter_conv_card)
  with assms(2) show ?thesis by (simp add: distinct_card)
qed

lemma share_rel_round:
  assumes inv: "limits_inv L M nd s" and rel: "share_rel nd s xs"
    and run: "for_not_done part nd s [] = (s', rm)"
  shows "share_rel (filter (\<lambda>i. i \<notin> set rm) nd) s' (map (grant part) xs)"
proof -
  from inv have len: "length (actual_lims s) = length L" "length (limits s) = length L"
    and d: "distinct nd" and rng: "\<forall>i \<in> set nd. i < length L"
    by (simp_all add: limits_inv_def)
  have rng': "\<forall>i \<in> set nd. i < length (actual_lims s) \<and> i < length (limits s)"
    using rng len by simp
  note r = for_not_done_round[OF run d rng']
  from r have len': "length (actual_lims s') = length (actual_lims s)" by simp
  from r have act: "\<And>j. actual_lims s' ! j =
        actual_lims s ! j + (if j \<in> set nd then min part (limits s ! j) else 0)" by blast
  from r have lim: "\<And>j. limits s' ! j =
        (if j \<in> set nd \<and> part < limits s ! j then limits s ! j - part else limits s ! j)" by blast
  from r have rm: "set rm = {i \<in> set nd. limits s ! i \<le> part}" by simp
  from rel have lx: "length xs = length (actual_lims s)" by (simp add: share_rel_def)
  have cell: "granted (grant part (xs ! j)) = actual_lims s' ! j \<and>
        (active (grant part (xs ! j)) \<longleftrightarrow> j \<in> set (filter (\<lambda>i. i \<notin> set rm) nd)) \<and>
        (j \<in> set (filter (\<lambda>i. i \<notin> set rm) nd) \<longrightarrow>
           remaining (grant part (xs ! j)) = limits s' ! j)"
    if "j < length xs" for j
  proof -
    from rel that have c: "granted (xs ! j) = actual_lims s ! j"
      "active (xs ! j) \<longleftrightarrow> j \<in> set nd" "j \<in> set nd \<Longrightarrow> remaining (xs ! j) = limits s ! j"
      by (simp_all add: share_rel_def)
    show ?thesis
    proof (cases "j \<in> set nd")
      case False
      with c act[of j] show ?thesis by (simp add: grant_def)
    next
      case True
      have inrm: "j \<in> set rm \<longleftrightarrow> limits s ! j \<le> part" using rm True by simp
      from True c have a: "active (xs ! j)" and r: "remaining (xs ! j) = limits s ! j" by simp_all
      show ?thesis
      proof (cases "limits s ! j \<le> part")
        case le: True
        with inrm have "j \<in> set rm" by simp
        with a r c(1) act[of j] True le show ?thesis by (simp add: grant_def)
      next
        case gt: False
        with inrm have "j \<notin> set rm" by simp
        with a r c(1) act[of j] lim[of j] True gt show ?thesis by (simp add: grant_def)
      qed
    qed
  qed
  show ?thesis
    unfolding share_rel_def using lx len' cell by simp
qed

lemma even_share_refines:
  "limits_inv L M nd s \<Longrightarrow> share_rel nd s xs \<Longrightarrow>
   map granted (even_share M xs) = actual_lims (while_not_done nd s)"
proof (induction nd s arbitrary: xs rule: while_not_done.induct)
  case (1 not_done s)
  from "1.prems"(1) have len: "length (actual_lims s) = length L"
    and d: "distinct not_done" and rng: "\<forall>i \<in> set not_done. i < length L"
    and m0: "0 \<le> max_limit s" and tot: "sum_list (actual_lims s) + max_limit s = M"
    by (simp_all add: limits_inv_def)
  from "1.prems"(2) have lx: "length xs = length L" using len by (simp add: share_rel_def)
  have n: "length (filter active xs) = length not_done"
    using share_rel_active[OF "1.prems"(2) d] rng lx by simp
  have pot: "M - sum_list (map granted xs) = max_limit s"
    using share_rel_granted[OF "1.prems"(2)] tot by simp
  let ?part = "max_limit s div int (length not_done)"
  have part0: "0 \<le> ?part" using m0 by (simp add: pos_imp_zdiv_nonneg_iff div_int_pos_iff)
  show ?case
  proof (cases "not_done = [] \<or> ?part = 0")
    case True
    then have "while_not_done not_done s = s"
      by (subst while_not_done.simps) (auto simp: Let_def)
    moreover from True have "even_share M xs = xs"
      by (subst even_share.simps) (auto simp: Let_def n pot)
    ultimately show ?thesis using share_rel_granted[OF "1.prems"(2)] by simp
  next
    case False
    then have ne: "not_done \<noteq> []" and nz: "?part \<noteq> 0" by simp_all
    obtain s' rm where run: "for_not_done ?part not_done s [] = (s', rm)"
      by (cases "for_not_done ?part not_done s []")
    have inv': "limits_inv L M (filter (\<lambda>i. i \<notin> set rm) not_done) s'"
      by (rule limits_inv_round[OF "1.prems"(1) ne refl nz run])
    have rel': "share_rel (filter (\<lambda>i. i \<notin> set rm) not_done) s' (map (grant ?part) xs)"
      by (rule share_rel_round[OF "1.prems"(1) "1.prems"(2) run])
    have w: "while_not_done not_done s = while_not_done (filter (\<lambda>i. i \<notin> set rm) not_done) s'"
      using ne nz run by (subst while_not_done.simps) (simp add: Let_def)
    have e: "even_share M xs = even_share M (map (grant ?part) xs)"
      using ne nz part0 by (subst even_share.simps) (simp add: Let_def n pot)
    from "1.IH"[OF ne refl nz run[symmetric] inv' rel'] w e show ?thesis by simp
  qed
qed

lemma limits_inv_init:
  assumes "\<forall>l \<in> set lims. 0 \<le> l" "0 \<le> max_lim"
  shows "limits_inv lims max_lim [0..<length lims]
           \<lparr>actual_lims = replicate (length lims) 0, limits = lims, max_limit = max_lim\<rparr>"
  using assms by (simp add: limits_inv_def sum_list_replicate)

lemma share_rel_init:
  "share_rel [0..<length lims]
     \<lparr>actual_lims = replicate (length lims) 0, limits = lims, max_limit = max_lim\<rparr>
     (map (\<lambda>l. \<lparr>granted = 0, remaining = l, active = True\<rparr>) lims)"
  by (simp add: share_rel_def)

text \<open>
  Claim C3. For non-negative per-series caps and a non-negative total cap,
  \<^verbatim>\<open>_find_initial_query_limits\<close> (a total function: the loop always ends) returns a list
  of the same length, each entry between zero and the corresponding cap, with a sum of at
  most the total cap, and its values are those of the even-share algorithm
  \<open>distribute_limits\<close>.
\<close>

theorem find_initial_query_limits_even_share:
  assumes "\<forall>l \<in> set lims. 0 \<le> l" and "0 \<le> max_lim"
  shows "length (find_initial_query_limits lims max_lim) = length lims \<and>
         (\<forall>i < length lims. 0 \<le> find_initial_query_limits lims max_lim ! i \<and>
            find_initial_query_limits lims max_lim ! i \<le> lims ! i) \<and>
         sum_list (find_initial_query_limits lims max_lim) \<le> max_lim \<and>
         find_initial_query_limits lims max_lim = distribute_limits lims max_lim"
proof -
  let ?s0 = "\<lparr>actual_lims = replicate (length lims) 0, limits = lims, max_limit = max_lim\<rparr>"
  let ?nd0 = "[0..<length lims]"
  note inv0 = limits_inv_init[OF assms]
  from limits_inv_while[OF inv0] obtain nd' where
    fin: "limits_inv lims max_lim nd' (while_not_done ?nd0 ?s0)" by blast
  have r: "find_initial_query_limits lims max_lim = actual_lims (while_not_done ?nd0 ?s0)"
    by (simp add: find_initial_query_limits_def)
  from fin have len: "length (actual_lims (while_not_done ?nd0 ?s0)) = length lims"
    and m0: "0 \<le> max_limit (while_not_done ?nd0 ?s0)"
    and tot: "sum_list (actual_lims (while_not_done ?nd0 ?s0)) + max_limit (while_not_done ?nd0 ?s0) = max_lim"
    and cells: "\<forall>j < length lims. 0 \<le> actual_lims (while_not_done ?nd0 ?s0) ! j \<and>
        actual_lims (while_not_done ?nd0 ?s0) ! j \<le> lims ! j"
    by (simp_all add: limits_inv_def)
  from tot m0 have sum: "sum_list (actual_lims (while_not_done ?nd0 ?s0)) \<le> max_lim" by linarith
  have ref: "distribute_limits lims max_lim = actual_lims (while_not_done ?nd0 ?s0)"
    unfolding distribute_limits_def by (rule even_share_refines[OF inv0 share_rel_init])
  show ?thesis unfolding r using len cells sum ref by simp
qed

text \<open>The theorem at caps 10, 5, 100, 0 and a total of 50: the result is 10, 5, 35, 0.\<close>

theorem find_initial_query_limits_even_share_witness:
  "find_initial_query_limits [10, 5, 100, 0] 50 = [10, 5, 35, 0] \<and>
   distribute_limits [10, 5, 100, 0] 50 = [10, 5, 35, 0] \<and>
   sum_list (find_initial_query_limits [10, 5, 100, 0] 50) \<le> 50"
proof -
  have v: "find_initial_query_limits [10, 5, 100, 0] 50 = [10, 5, 35, 0]" by code_simp
  have h: "\<forall>l \<in> set [10, 5, 100, 0 :: int]. 0 \<le> l" by simp
  have m: "(0::int) \<le> 50" by simp
  note t = find_initial_query_limits_even_share[OF h m]
  from t have d: "find_initial_query_limits [10, 5, 100, 0] 50 = distribute_limits [10, 5, 100, 0] 50"
    by blast
  from t have s: "sum_list (find_initial_query_limits [10, 5, 100, 0] 50) \<le> 50" by blast
  from v d s show ?thesis by metis
qed

section \<open>Queries and per-series tasks\<close>

text \<open>
  Modelled from the spec: \<^verbatim>\<open>_SingleTSQueryBase\<close> and \<^verbatim>\<open>BaseConcurrentTask\<close>
  live in \<^verbatim>\<open>cognite/client/_api/datapoint_tasks.py\<close>, which is not among the sources.
  The records keep the attributes that \<^verbatim>\<open>datapoints.py\<close> reads and writes. A query
  is a Python object hashed and compared by identity (the spec preserves duplicate
  identifiers), so it carries its identity \<open>qid\<close>; \<open>capped_limit\<close> is the minimum of
  the user limit and the per-request ceiling \<open>max_query_limit\<close>, and
  \<^verbatim>\<open>override_max_query_limit\<close> replaces that ceiling. A task refers to its query; the
  flags \<open>is_done\<close> and \<open>has_limit\<close> are the values the fetcher observes.
\<close>

datatype ts_identifier = Id int | ExternalId string

record ts_query =
  qid :: nat
  ident :: ts_identifier
  is_raw_query :: bool
  limit :: "int option"
  max_query_limit :: int
  ignore_unknown_ids :: bool
  is_missing :: bool
  is_string :: bool

definition capped_limit :: "ts_query \<Rightarrow> int" where
  "capped_limit q = (case limit q of None \<Rightarrow> max_query_limit q | Some l \<Rightarrow> min l (max_query_limit q))"

definition override_max_query_limit :: "int \<Rightarrow> ts_query \<Rightarrow> ts_query" where
  "override_max_query_limit new_limit q = q\<lparr>max_query_limit := new_limit\<rparr>"

record ts_task =
  query :: ts_query
  is_done :: bool
  has_limit :: bool

text \<open>
  \<^verbatim>\<open>ts_task_lookup: Dict[_SingleTSQueryBase, BaseConcurrentTask]\<close>: an association
  list in insertion order, keyed by the identity of the query object.
\<close>

type_synonym task_lookup = "(nat \<times> ts_task) list"

section \<open>Recomputing the per-request limits before the second phase\<close>

text \<open>
  \<^verbatim>\<open>math.ceil(a / b)\<close> and \<^verbatim>\<open>math.floor(a / b)\<close> on integers, written with integer
  division; the two lemmas relate them to the ceiling and floor of the quotient.
\<close>

definition py_ceil_div :: "int \<Rightarrow> int \<Rightarrow> int" where
  "py_ceil_div a b = - ((- a) div b)"

lemma py_ceil_div_ceiling: "py_ceil_div a b = \<lceil>real_of_int a / real_of_int b\<rceil>"
  by (simp add: py_ceil_div_def ceiling_divide_eq_div)

lemma py_floor_div_floor: "a div b = \<lfloor>real_of_int a / real_of_int b\<rfloor>"
  by (simp add: floor_divide_of_int_eq)

definition n_chunk :: "int \<Rightarrow> int" where
  "n_chunk tot = min FETCH_TS_LIMIT (py_ceil_div (if tot = 0 then 1 else tot) 10)"

definition update_queries_with_new_chunking_limit :: "task_lookup \<Rightarrow> task_lookup \<times> ts_task list" where
  "update_queries_with_new_chunking_limit ts_task_lookup =
     (let queries = map (query \<circ> snd) (filter (\<lambda>(k, task). \<not> is_done task) ts_task_lookup);
          tot_raw = int (length (filter is_raw_query queries));
          tot_agg = int (length queries) - tot_raw;
          n_raw_chunk = n_chunk tot_raw;
          n_agg_chunk = n_chunk tot_agg;
          max_limit_raw = DPS_LIMIT div n_raw_chunk;
          max_limit_agg = DPS_LIMIT_AGG div n_agg_chunk;
          override = (\<lambda>task. task\<lparr>query :=
                        (if is_raw_query (query task)
                         then override_max_query_limit max_limit_raw (query task)
                         else override_max_query_limit max_limit_agg (query task))\<rparr>)
      in (map (\<lambda>(k, task). if is_done task then (k, task) else (k, override task)) ts_task_lookup,
          map (override \<circ> snd) (filter (\<lambda>(k, task). \<not> is_done task) ts_task_lookup)))"



definition n_unfinished :: "bool \<Rightarrow> task_lookup \<Rightarrow> int" where
  "n_unfinished raw ts_task_lookup =
     int (length (filter (\<lambda>(k, task). \<not> is_done task \<and> is_raw_query (query task) = raw) ts_task_lookup))"

lemma n_chunk_max: "0 \<le> tot \<Longrightarrow> n_chunk tot = min FETCH_TS_LIMIT (py_ceil_div (max tot 1) 10)"
proof -
  assume "0 \<le> tot"
  then have "max tot 1 = (if tot = 0 then 1 else tot)" by auto
  then show ?thesis by (simp add: n_chunk_def)
qed

lemma tot_raw_eq:
  "int (length (filter is_raw_query (map (query \<circ> snd) (filter (\<lambda>(k, task). \<not> is_done task) l)))) =
   n_unfinished True l"
  by (induction l) (auto simp: n_unfinished_def)

lemma tot_agg_eq:
  "int (length (map (query \<circ> snd) (filter (\<lambda>(k, task). \<not> is_done task) l))) - n_unfinished True l =
   n_unfinished False l"
  by (induction l) (auto simp: n_unfinished_def)

lemma n_unfinished_nonneg: "0 \<le> n_unfinished raw l"
  by (simp add: n_unfinished_def)

definition new_limit :: "task_lookup \<Rightarrow> bool \<Rightarrow> int" where
  "new_limit l raw =
     (if raw then DPS_LIMIT div min FETCH_TS_LIMIT (py_ceil_div (max (n_unfinished True l) 1) 10)
      else DPS_LIMIT_AGG div min FETCH_TS_LIMIT (py_ceil_div (max (n_unfinished False l) 1) 10))"

text \<open>
  Claim C8, as stated, gives the chunk count \<open>min(FETCH_TS_LIMIT, ceil(n / 10))\<close> for
  every \<open>n\<close>, zero included. The code computes \<^verbatim>\<open>math.ceil((tot or 1) / 10)\<close>: with no
  unfinished query of a flavour the chunk count is 1, where the stated formula gives 0
  (and a division by zero in the limit that follows).
\<close>

theorem n_chunk_zero_counterexample:
  "n_chunk 0 \<noteq> min FETCH_TS_LIMIT (py_ceil_div 0 10)"
  by (simp add: n_chunk_def py_ceil_div_def FETCH_TS_LIMIT_def)

text \<open>
  Claim C8, amended. With \<open>n_raw\<close> and \<open>n_agg\<close> the numbers of unfinished raw and
  aggregate queries, every unfinished raw query's per-request limit becomes
  \<open>DPS_LIMIT div min(FETCH_TS_LIMIT, ceil(max(n_raw, 1) / 10))\<close> and every unfinished
  aggregate query's becomes \<open>DPS_LIMIT_AGG div min(FETCH_TS_LIMIT, ceil(max(n_agg, 1) / 10))\<close>;
  finished tasks are left as they are, and the unfinished tasks are returned in lookup order.
\<close>

theorem update_queries_with_new_chunking_limit_overrides:
  "update_queries_with_new_chunking_limit l =
     (map (\<lambda>(k, task). if is_done task then (k, task)
            else (k, task\<lparr>query := override_max_query_limit (new_limit l (is_raw_query (query task))) (query task)\<rparr>)) l,
      map ((\<lambda>task. task\<lparr>query := override_max_query_limit (new_limit l (is_raw_query (query task))) (query task)\<rparr>) \<circ> snd)
        (filter (\<lambda>(k, task). \<not> is_done task) l))"
  unfolding update_queries_with_new_chunking_limit_def Let_def tot_raw_eq tot_agg_eq
  by (auto simp: new_limit_def n_chunk_max n_unfinished_nonneg split: prod.splits)

section \<open>Errors\<close>

text \<open>
  The exceptions that cross the functions modelled here. \<^verbatim>\<open>CogniteAPIError\<close> carries its
  \<^verbatim>\<open>code\<close> and its \<^verbatim>\<open>missing\<close> list (empty when the error names no missing identifier);
  \<^verbatim>\<open>CogniteNotFoundError\<close> carries the identifiers it names.
\<close>

datatype py_error =
    RuntimeError
  | ValidationError
  | KeyError
  | IndexError
  | StatisticsError
  | CancelledError
  | CogniteAPIError int "ts_identifier list"
  | CogniteNotFoundError "ts_identifier list"
  | OtherError

section \<open>Strategy selection\<close>

text \<open>
  \<^verbatim>\<open>dps_fetch_selector\<close> and \<^verbatim>\<open>validate_and_split_user_queries\<close>. The validator
  \<^verbatim>\<open>_SingleTSQueryValidator(q).validate_and_create_single_queries()\<close> is not among the
  sources: it is the parameter \<open>validate_and_create\<close>, which either raises or returns the
  single-series queries of one user query. \<^verbatim>\<open>chain.from_iterable\<close> concatenates them in
  order and stops at the first error; \<^verbatim>\<open>split_qs[query.is_raw_query].append(query)\<close>
  appends to the first list (aggregates) for \<^verbatim>\<open>False\<close> and to the second (raw) for
  \<^verbatim>\<open>True\<close>.
\<close>

record fetcher_args =
  all_queries :: "ts_query list"
  agg_queries :: "ts_query list"
  raw_queries :: "ts_query list"
  max_workers :: int

datatype dps_fetch_strategy = EagerDpsFetcher fetcher_args | ChunkingDpsFetcher fetcher_args

fun chain_from_iterable :: "('u \<Rightarrow> py_error + ts_query list) \<Rightarrow> 'u list \<Rightarrow> py_error + ts_query list" where
  "chain_from_iterable validate_and_create [] = Inr []"
| "chain_from_iterable validate_and_create (u # us) =
     (case validate_and_create u of
        Inl e \<Rightarrow> Inl e
      | Inr qs \<Rightarrow> (case chain_from_iterable validate_and_create us of
                     Inl e \<Rightarrow> Inl e
                   | Inr rest \<Rightarrow> Inr (qs @ rest)))"

fun split_qs_loop :: "ts_query list \<Rightarrow> ts_query list \<times> ts_query list \<Rightarrow> ts_query list \<times> ts_query list" where
  "split_qs_loop [] split_qs = split_qs"
| "split_qs_loop (q # qs) (agg, raw) =
     split_qs_loop qs (if is_raw_query q then (agg, raw @ [q]) else (agg @ [q], raw))"

definition validate_and_split_user_queries ::
  "('u \<Rightarrow> py_error + ts_query list) \<Rightarrow> 'u list \<Rightarrow>
   py_error + (ts_query list \<times> ts_query list \<times> ts_query list)" where
  "validate_and_split_user_queries validate_and_create user_queries =
     (case chain_from_iterable validate_and_create user_queries of
        Inl e \<Rightarrow> Inl e
      | Inr all_qs \<Rightarrow> (case split_qs_loop all_qs ([], []) of
                        (agg, raw) \<Rightarrow> Inr (all_qs, agg, raw)))"

definition dps_fetch_selector ::
  "int \<Rightarrow> ('u \<Rightarrow> py_error + ts_query list) \<Rightarrow> 'u list \<Rightarrow> py_error + dps_fetch_strategy" where
  "dps_fetch_selector max_wrk validate_and_create user_queries =
     (if max_wrk < 1 then Inl RuntimeError
      else case validate_and_split_user_queries validate_and_create user_queries of
        Inl e \<Rightarrow> Inl e
      | Inr (all_qs, agg_qs, raw_qs) \<Rightarrow>
          (let args = \<lparr>all_queries = all_qs, agg_queries = agg_qs, raw_queries = raw_qs,
                       max_workers = max_wrk\<rparr>
           in if int (length all_qs) \<le> max_wrk then Inr (EagerDpsFetcher args)
              else Inr (ChunkingDpsFetcher args)))"

lemma split_qs_loop_filter:
  "split_qs_loop qs (agg, raw) =
     (agg @ filter (\<lambda>q. \<not> is_raw_query q) qs, raw @ filter is_raw_query qs)"
  by (induction qs arbitrary: agg raw) auto

text \<open>Concrete values used by the examples below.\<close>

definition example_query :: "nat \<Rightarrow> bool \<Rightarrow> ts_query" where
  "example_query n raw =
     \<lparr>qid = n, ident = Id (int n), is_raw_query = raw, limit = None, max_query_limit = 100000,
      ignore_unknown_ids = True, is_missing = False, is_string = False\<rparr>"

text \<open>
  Claim C5. For a validated set of user queries and \<open>max_workers\<close> of at least one, the
  selector returns an \<^verbatim>\<open>EagerDpsFetcher\<close> exactly when the number of single-series
  queries is at most \<open>max_workers\<close> and a \<^verbatim>\<open>ChunkingDpsFetcher\<close> otherwise; either
  receives the same three lists, the aggregate and raw lists being the non-raw and the raw
  queries of the full list in their original order.
\<close>

theorem dps_fetch_selector_strategy:
  assumes "1 \<le> max_wrk"
    and "chain_from_iterable validate_and_create user_queries = Inr all_qs"
  shows "dps_fetch_selector max_wrk validate_and_create user_queries =
           Inr ((if int (length all_qs) \<le> max_wrk then EagerDpsFetcher else ChunkingDpsFetcher)
                  \<lparr>all_queries = all_qs,
                   agg_queries = filter (\<lambda>q. \<not> is_raw_query q) all_qs,
                   raw_queries = filter is_raw_query all_qs,
                   max_workers = max_wrk\<rparr>)"
  using assms
  by (simp add: dps_fetch_selector_def validate_and_split_user_queries_def split_qs_loop_filter)

text \<open>One worker and two queries, a raw and an aggregate one: the chunking fetcher.\<close>

theorem dps_fetch_selector_strategy_witness:
  "dps_fetch_selector 1 (\<lambda>u. Inr [u]) [example_query 0 True, example_query 1 False] =
     Inr (ChunkingDpsFetcher
            \<lparr>all_queries = [example_query 0 True, example_query 1 False],
             agg_queries = [example_query 1 False],
             raw_queries = [example_query 0 True],
             max_workers = 1\<rparr>)"
proof -
  have c: "chain_from_iterable (\<lambda>u. Inr [u]) [example_query 0 True, example_query 1 False] =
      Inr [example_query 0 True, example_query 1 False]" by simp
  have m: "(1::int) \<le> 1" by simp
  show ?thesis
    using dps_fetch_selector_strategy[OF m c] by (simp add: example_query_def)
qed

section \<open>Requests, responses and subtasks\<close>

text \<open>
  An item of a request body with the entries this development reads, the body itself (the key
  \<^verbatim>\<open>ignoreUnknownIds\<close> may be absent), and an item of the response.

  Modelled from the spec: \<^verbatim>\<open>SplittingFetchSubtask\<close> (\<^verbatim>\<open>datapoint_tasks.py\<close>) is not
  among the sources. A subtask has an identity, refers to its parent task by the identity of
  the parent's query, and carries the attributes the fetchers read; \<open>next_payload\<close> is
  the request item for what is left of the subtask's range, \<open>None\<close> when nothing is left.
\<close>

record dps_item =
  item_ident :: ts_identifier
  item_start :: int
  item_end :: int
  item_limit :: int

record dps_payload =
  ignoreUnknownIds :: "bool option"
  items :: "dps_item list"

record dps_response_item =
  res_id :: int
  res_externalId :: "string option"
  res_isString :: bool
  res_datapoints :: "int list"

record subtask =
  sid :: nat
  sub_parent :: nat
  sub_priority :: int
  sub_is_raw_query :: bool
  sub_is_done :: bool
  sub_n_dps_left :: "int option"
  sub_max_query_limit :: int
  next_payload :: "dps_item option"

text \<open>
  Tasks and subtasks are objects shared between the scheduler thread and the workers. The
  store gives the present state of each object: the per-series task of a query identity and
  the subtask of a subtask identity.
\<close>

record object_store =
  ts_task_objs :: "nat \<Rightarrow> ts_task"
  subtask_objs :: "nat \<Rightarrow> subtask"

text \<open>
  Modelled from the spec: \<^verbatim>\<open>get_next_payload()\<close> (sections 4.3 and 4.6 of the
  specification) answers with the sentinel when the subtask is done or its parent task has
  finished, and with the next request item otherwise. The parent is read through the
  subtask's reference, in its state at the time of the call.
\<close>

definition get_next_payload :: "(nat \<Rightarrow> ts_task) \<Rightarrow> subtask \<Rightarrow> dps_item option" where
  "get_next_payload parents task =
     (if sub_is_done task \<or> is_done (parents (sub_parent task)) then None else next_payload task)"

text \<open>
  \<^verbatim>\<open>EagerDpsFetcher.request_datapoints_jit\<close>. The HTTP client is the parameter
  \<open>post\<close>; the second component of the result lists the request bodies that were posted.
\<close>

definition request_datapoints_jit ::
  "(dps_payload \<Rightarrow> py_error + dps_response_item list) \<Rightarrow> (nat \<Rightarrow> ts_task) \<Rightarrow> subtask \<Rightarrow>
   dps_payload option \<Rightarrow> (py_error + dps_response_item option list) \<times> dps_payload list" where
  "request_datapoints_jit post parents task payload =
     (case get_next_payload parents task of
        None \<Rightarrow> (Inr [None], [])
      | Some item \<Rightarrow>
          (let p = (case payload of
                      None \<Rightarrow> \<lparr>ignoreUnknownIds = None, items = [item]\<rparr>
                    | Some p0 \<Rightarrow> p0\<lparr>items := [item]\<rparr>)
           in (case post p of Inl e \<Rightarrow> Inl e | Inr res \<Rightarrow> Inr (map Some res), [p])))"

text \<open>
  \<^verbatim>\<open>pool.submit(self.request_datapoints_jit, subtask, payload, priority=subtask.priority)\<close>
  (\<^verbatim>\<open>_create_initial_tasks\<close>, \<^verbatim>\<open>_queue_new_subtasks\<close>) enqueues a call that holds a
  reference to the subtask, not a request body. A worker runs the call later, on the objects
  as they are then. Finishing a task sets its \<^verbatim>\<open>is_done\<close>, as the scheduler thread does.
\<close>

record jit_call =
  call_task :: nat
  call_payload :: "dps_payload option"
  call_priority :: int

definition submit_jit :: "subtask \<Rightarrow> dps_payload option \<Rightarrow> jit_call" where
  "submit_jit task payload =
     \<lparr>call_task = sid task, call_payload = payload, call_priority = sub_priority task\<rparr>"

definition dispatch ::
  "(dps_payload \<Rightarrow> py_error + dps_response_item list) \<Rightarrow> object_store \<Rightarrow> jit_call \<Rightarrow>
   (py_error + dps_response_item option list) \<times> dps_payload list" where
  "dispatch post h call =
     request_datapoints_jit post (ts_task_objs h) (subtask_objs h (call_task call)) (call_payload call)"

definition finish_ts_task :: "nat \<Rightarrow> object_store \<Rightarrow> object_store" where
  "finish_ts_task k h = h\<lparr>ts_task_objs := (ts_task_objs h)(k := (ts_task_objs h k)\<lparr>is_done := True\<rparr>)\<rparr>"

definition example_subtask :: "nat \<Rightarrow> nat \<Rightarrow> bool \<Rightarrow> dps_item option \<Rightarrow> subtask" where
  "example_subtask n p done item =
     \<lparr>sid = n, sub_parent = p, sub_priority = 0, sub_is_raw_query = True, sub_is_done = done,
      sub_n_dps_left = None, sub_max_query_limit = 100000, next_payload = item\<rparr>"

definition example_item :: dps_item where
  "example_item = \<lparr>item_ident = Id 7, item_start = 0, item_end = 1000, item_limit = 100000\<rparr>"

definition example_store :: object_store where
  "example_store =
     \<lparr>ts_task_objs = (\<lambda>k. \<lparr>query = example_query k True, is_done = False, has_limit = True\<rparr>),
      subtask_objs = (\<lambda>n. example_subtask n 7 False (Some example_item))\<rparr>"

text \<open>
  Claim C9. The request body is built when the call is dispatched, from the objects as they
  are then. If \<^verbatim>\<open>get_next_payload()\<close> answers with the sentinel at dispatch, nothing is
  posted and the result is \<^verbatim>\<open>[None]\<close>; otherwise exactly one request is posted, whose
  items are the single item built at dispatch. In particular, whatever the state was when
  the call was enqueued, a call dispatched after the parent task of its subtask has finished
  posts nothing.
\<close>

theorem request_datapoints_jit_built_at_dispatch:
  fixes post h task payload
  defines "call \<equiv> submit_jit task payload"
  defines "current \<equiv> subtask_objs h (sid task)"
  shows "(get_next_payload (ts_task_objs h) current = None \<longrightarrow>
            dispatch post h call = (Inr [None], [])) \<and>
         (\<forall>item. get_next_payload (ts_task_objs h) current = Some item \<longrightarrow>
            map items (snd (dispatch post h call)) = [[item]]) \<and>
         (is_done (ts_task_objs h (sub_parent current)) \<longrightarrow>
            dispatch post h call = (Inr [None], [])) \<and>
         dispatch post (finish_ts_task (sub_parent current) h) call = (Inr [None], [])"
  unfolding call_def current_def
  by (simp add: dispatch_def submit_jit_def finish_ts_task_def request_datapoints_jit_def
      get_next_payload_def Let_def split: option.splits)

text \<open>
  A subtask of task 7 is enqueued while the task is running: dispatched at once, the call
  posts one request with the subtask's item; dispatched after task 7 has finished, it posts
  nothing.
\<close>

theorem request_datapoints_jit_built_at_dispatch_witness:
  "get_next_payload (ts_task_objs example_store) (subtask_objs example_store 3) = Some example_item \<and>
   snd (dispatch (\<lambda>p. Inr []) example_store
          (submit_jit (example_subtask 3 7 False (Some example_item)) None)) =
     [\<lparr>ignoreUnknownIds = None, items = [example_item]\<rparr>] \<and>
   dispatch (\<lambda>p. Inr []) (finish_ts_task 7 example_store)
     (submit_jit (example_subtask 3 7 False (Some example_item)) None) = (Inr [None], [])"
proof -
  have cur: "subtask_objs example_store (sid (example_subtask 3 7 False (Some example_item))) =
      example_subtask 3 7 False (Some example_item)"
    by (simp add: example_store_def example_subtask_def)
  have par: "sub_parent (example_subtask 3 7 False (Some example_item)) = 7"
    by (simp add: example_subtask_def)
  have get: "get_next_payload (ts_task_objs example_store) (example_subtask 3 7 False (Some example_item)) =
      Some example_item"
    by (simp add: get_next_payload_def example_store_def example_subtask_def)
  have run: "snd (dispatch (\<lambda>p. Inr []) example_store
          (submit_jit (example_subtask 3 7 False (Some example_item)) None)) =
     [\<lparr>ignoreUnknownIds = None, items = [example_item]\<rparr>]"
    by (simp add: dispatch_def submit_jit_def request_datapoints_jit_def get_next_payload_def
        example_store_def example_subtask_def Let_def)
  from request_datapoints_jit_built_at_dispatch[where post = "\<lambda>p. Inr []" and h = example_store
      and task = "example_subtask 3 7 False (Some example_item)" and payload = None]
  have "dispatch (\<lambda>p. Inr []) (finish_ts_task 7 example_store)
     (submit_jit (example_subtask 3 7 False (Some example_item)) None) = (Inr [None], [])"
    unfolding cur par by blast
  with get run cur show ?thesis
    by (simp add: example_store_def example_subtask_def)
qed

section \<open>Eager mode: results and errors of a completed future\<close>

text \<open>
  \<^verbatim>\<open>EagerDpsFetcher._get_result_with_exception_handling\<close> and
  \<^verbatim>\<open>_cancel_futures_for_finished_ts_task\<close>. What \<^verbatim>\<open>future.result()\<close> does is the
  outcome handed in; the state holds the task lookup, the dictionary from pending futures
  to subtasks and the futures on which \<^verbatim>\<open>cancel()\<close> was called. The task object is
  passed and returned, since the method sets its \<^verbatim>\<open>is_done\<close>.
\<close>

datatype future_outcome =
    Returned "dps_response_item option list"
  | Raised py_error

record eager_state =
  ts_task_lookup :: task_lookup
  futures_dct :: "(nat \<times> subtask) list"
  cancelled :: "nat list"

fun del_key :: "nat \<Rightarrow> (nat \<times> 'v) list \<Rightarrow> py_error + (nat \<times> 'v) list" where
  "del_key k l = (if k \<in> fst ` set l then Inr (filter (\<lambda>(k', v). k' \<noteq> k) l) else Inl KeyError)"

fun cancel_futures_for_finished_ts_task :: "ts_task \<Rightarrow> eager_state \<Rightarrow> eager_state" where
  "cancel_futures_for_finished_ts_task ts_task s =
     s\<lparr>futures_dct := filter (\<lambda>(future, subtask). sub_parent subtask \<noteq> qid (query ts_task)) (futures_dct s),
       cancelled := cancelled s @
         map fst (filter (\<lambda>(future, subtask). sub_parent subtask = qid (query ts_task)) (futures_dct s))\<rparr>"

definition get_result_with_exception_handling ::
  "future_outcome \<Rightarrow> ts_task \<Rightarrow> eager_state \<Rightarrow>
   py_error + (dps_response_item option \<times> ts_task \<times> eager_state)" where
  "get_result_with_exception_handling outcome ts_task s =
     (case outcome of
        Returned res \<Rightarrow> (case res of [] \<Rightarrow> Inl IndexError | r # _ \<Rightarrow> Inr (r, ts_task, s))
      | Raised CancelledError \<Rightarrow> Inr (None, ts_task, s)
      | Raised (CogniteAPIError code missing) \<Rightarrow>
          if \<not> (code = 400 \<and> missing \<noteq> [] \<and> ignore_unknown_ids (query ts_task))
          then Inl (CogniteAPIError code missing)
          else if is_done ts_task then Inr (None, ts_task, s)
          else (case del_key (qid (query ts_task)) (ts_task_lookup s) of
                  Inl e \<Rightarrow> Inl e
                | Inr lookup' \<Rightarrow>
                    Inr (None, ts_task\<lparr>is_done := True\<rparr>,
                         cancel_futures_for_finished_ts_task ts_task (s\<lparr>ts_task_lookup := lookup'\<rparr>)))
      | Raised e \<Rightarrow> Inl e)"

definition example_task :: "nat \<Rightarrow> bool \<Rightarrow> ts_task" where
  "example_task n done = \<lparr>query = example_query n True, is_done = done, has_limit = False\<rparr>"

text \<open>
  Claim C7, as stated, has every swallowed error mark the task done, remove it from the
  lookup and cancel its pending futures. The method returns early for a task that is already
  done (\<^verbatim>\<open>elif ts_task.is_done: return None\<close>): the lookup still holds the task and its
  pending future is neither cancelled nor dropped.
\<close>

theorem eager_missing_already_done_counterexample:
  "get_result_with_exception_handling (Raised (CogniteAPIError 400 [Id 0])) (example_task 0 True)
     \<lparr>ts_task_lookup = [(0, example_task 0 True)],
      futures_dct = [(1, example_subtask 1 0 False None)],
      cancelled = []\<rparr> =
   Inr (None, example_task 0 True,
     \<lparr>ts_task_lookup = [(0, example_task 0 True)],
      futures_dct = [(1, example_subtask 1 0 False None)],
      cancelled = []\<rparr>)"
  by (simp add: get_result_with_exception_handling_def example_task_def example_query_def)

text \<open>
  Claim C7, amended. A \<^verbatim>\<open>CogniteAPIError\<close> is swallowed exactly when its code is 400, it
  names missing identifiers and the query ignores unknown ids; every other one is re-raised.
  When it is swallowed and the task is already done, nothing changes. When it is swallowed
  and the task is not done (and is in the lookup), the task is marked done and removed from
  the lookup, and each pending future of the task is cancelled and dropped, the others kept.
\<close>

theorem eager_missing_error_handling:
  fixes code missing ts_task s
  defines "swallow \<equiv> code = 400 \<and> missing \<noteq> [] \<and> ignore_unknown_ids (query ts_task)"
  defines "res \<equiv> get_result_with_exception_handling (Raised (CogniteAPIError code missing)) ts_task s"
  defines "key \<equiv> qid (query ts_task)"
  shows "(\<not> swallow \<longrightarrow> res = Inl (CogniteAPIError code missing)) \<and>
         (swallow \<and> is_done ts_task \<longrightarrow> res = Inr (None, ts_task, s)) \<and>
         (swallow \<and> \<not> is_done ts_task \<and> key \<in> fst ` set (ts_task_lookup s) \<longrightarrow>
            (\<exists>s'. res = Inr (None, ts_task\<lparr>is_done := True\<rparr>, s') \<and>
               ts_task_lookup s' = filter (\<lambda>(k, t). k \<noteq> key) (ts_task_lookup s) \<and>
               futures_dct s' = filter (\<lambda>(f, sub). sub_parent sub \<noteq> key) (futures_dct s) \<and>
               cancelled s' = cancelled s @
                 map fst (filter (\<lambda>(f, sub). sub_parent sub = key) (futures_dct s))))"
  unfolding swallow_def res_def key_def
  by (auto simp: get_result_with_exception_handling_def)

theorem eager_missing_error_handling_witness:
  "\<exists>s'. get_result_with_exception_handling (Raised (CogniteAPIError 400 [Id 0])) (example_task 0 False)
      \<lparr>ts_task_lookup = [(0, example_task 0 False), (1, example_task 1 False)],
       futures_dct = [(10, example_subtask 10 0 False None), (11, example_subtask 11 1 False None)],
       cancelled = []\<rparr> = Inr (None, (example_task 0 False)\<lparr>is_done := True\<rparr>, s') \<and>
     ts_task_lookup s' = [(1, example_task 1 False)] \<and>
     futures_dct s' = [(11, example_subtask 11 1 False None)] \<and>
     cancelled s' = [10]"
  using eager_missing_error_handling[of 400 "[Id 0]" "example_task 0 False"
      "\<lparr>ts_task_lookup = [(0, example_task 0 False), (1, example_task 1 False)],
       futures_dct = [(10, example_subtask 10 0 False None), (11, example_subtask 11 1 False None)],
       cancelled = []\<rparr>"]
  by (simp add: example_task_def example_query_def example_subtask_def)

section \<open>Chunking mode: combining subtasks into requests\<close>

text \<open>
  \<^verbatim>\<open>ChunkingDpsFetcher\<close>: the two subtask pools and the partial payload
  (\<^verbatim>\<open>next_items\<close>, \<^verbatim>\<open>next_subtasks\<close>) of \<^verbatim>\<open>__init__\<close>, with the present state of
  the parent task objects that the subtasks refer to.

  A pool is a heap queue of tuples \<^verbatim>\<open>(priority, limit, tiebreak, task)\<close>. It is kept as
  the list of its entries in ascending order of the first three components: the entry at
  index 0 of the heap is the head of the list, \<^verbatim>\<open>heappop\<close> drops the head and
  \<^verbatim>\<open>heappush\<close> inserts in order. The tiebreak \<^verbatim>\<open>monotonic_ns() + random()\<close> is given
  with each new subtask. \<^verbatim>\<open>n_dps_left\<close> is \<open>None\<close> when it is infinite.
\<close>

type_synonym pool_subtask = "int \<times> int \<times> real \<times> subtask"

record chunking_state =
  agg_subtask_pool :: "pool_subtask list"
  raw_subtask_pool :: "pool_subtask list"
  next_items :: "dps_item list"
  next_subtasks :: "subtask list"
  parent_objs :: "nat \<Rightarrow> ts_task"

definition heappush :: "pool_subtask \<Rightarrow> pool_subtask list \<Rightarrow> pool_subtask list" where
  "heappush x pool = insort_key (\<lambda>(priority, key_limit, tiebreak, task). (priority, key_limit, tiebreak)) x pool"

text \<open>\<^verbatim>\<open>_add_to_subtask_pools\<close>: the pool is chosen by \<^verbatim>\<open>task.is_raw_query\<close>.\<close>

fun add_to_subtask_pools :: "(real \<times> subtask) list \<Rightarrow> chunking_state \<Rightarrow> chunking_state" where
  "add_to_subtask_pools [] s = s"
| "add_to_subtask_pools ((tiebreak, task) # new_subtasks) s =
     (let key_limit = (case sub_n_dps_left task of
                   None \<Rightarrow> sub_max_query_limit task
                 | Some n \<Rightarrow> min n (sub_max_query_limit task));
          new_subtask = (sub_priority task, key_limit, tiebreak, task)
      in add_to_subtask_pools new_subtasks
           (if sub_is_raw_query task
            then s\<lparr>raw_subtask_pool := heappush new_subtask (raw_subtask_pool s)\<rparr>
            else s\<lparr>agg_subtask_pool := heappush new_subtask (agg_subtask_pool s)\<rparr>))"

text \<open>
  The inner \<^verbatim>\<open>while task_pool\<close> loop of \<^verbatim>\<open>_combine_subtasks_into_requests\<close> for one
  pool. It ends with the pool drained, with \<^verbatim>\<open>payload_at_max_items\<close> set, or with
  \<^verbatim>\<open>payload_is_full[is_raw]\<close> set.
\<close>

datatype fill_outcome = Drained | AtMaxItems | PayloadFull

fun fill_from_pool ::
  "(nat \<Rightarrow> ts_task) \<Rightarrow> int \<Rightarrow> pool_subtask list \<Rightarrow> dps_item list \<Rightarrow> subtask list \<Rightarrow> int \<Rightarrow>
   pool_subtask list \<times> dps_item list \<times> subtask list \<times> fill_outcome" where
  "fill_from_pool parents request_max_limit [] its subs limit_used = ([], its, subs, Drained)"
| "fill_from_pool parents request_max_limit (x # task_pool) its subs limit_used =
     (if int (length its) + 1 > FETCH_TS_LIMIT then (x # task_pool, its, subs, AtMaxItems)
      else (case x of (priority, key_limit, tiebreak, next_task) \<Rightarrow>
        (case get_next_payload parents next_task of
           None \<Rightarrow> fill_from_pool parents request_max_limit task_pool its subs limit_used
         | Some payload \<Rightarrow>
             if sub_is_done next_task
             then fill_from_pool parents request_max_limit task_pool its subs limit_used
             else if limit_used + item_limit payload \<le> request_max_limit
             then fill_from_pool parents request_max_limit task_pool (its @ [payload]) (subs @ [next_task])
                    (limit_used + item_limit payload)
             else (x # task_pool, its, subs, PayloadFull))))"

text \<open>
  The tally \<^verbatim>\<open>limit_used\<close> of one flavour over the partial payload: the items are paired
  with the subtasks they came from, and an item is raw when its subtask is.
\<close>

definition limit_tally :: "bool \<Rightarrow> dps_item list \<Rightarrow> subtask list \<Rightarrow> int" where
  "limit_tally is_raw its subs =
     sum_list (map (item_limit \<circ> fst) (filter (\<lambda>(item, task). sub_is_raw_query task = is_raw) (zip its subs)))"

definition payload_done :: "bool \<Rightarrow> bool \<Rightarrow> bool \<Rightarrow> bool \<Rightarrow> chunking_state \<Rightarrow> bool" where
  "payload_done return_partial_payload payload_at_max_items full_agg full_raw s \<longleftrightarrow>
     payload_at_max_items \<or> (full_agg \<and> full_raw) \<or>
     (full_agg \<and> raw_subtask_pool s = []) \<or>
     (full_raw \<and> agg_subtask_pool s = []) \<or>
     (return_partial_payload \<and> \<not> (agg_subtask_pool s \<noteq> [] \<or> raw_subtask_pool s \<noteq> []))"

text \<open>
  What the generator yields: the items of the payload, the subtasks and the priority.
  \<^verbatim>\<open>statistics.mean\<close> raises \<^verbatim>\<open>StatisticsError\<close> on no data.
\<close>

type_synonym batch = "dps_item list \<times> subtask list \<times> real"

definition mean_priority :: "subtask list \<Rightarrow> py_error + real" where
  "mean_priority subs =
     (if subs = [] then Inl StatisticsError
      else Inr (real_of_int (sum_list (map sub_priority subs)) / real (length subs)))"

text \<open>
  One pass of the \<^verbatim>\<open>for\<close> loop over the two pools, first the aggregate pool and then
  the raw pool: it yields a batch (and the \<^verbatim>\<open>for\<close> loop is left), or goes on with what
  \<^verbatim>\<open>payload_is_full[0]\<close> is, or fails.
\<close>

datatype pass_result =
    Yield batch chunking_state
  | NoYield bool chunking_state
  | Failure py_error chunking_state

definition emit :: "chunking_state \<Rightarrow> pass_result" where
  "emit s = (case mean_priority (next_subtasks s) of
               Inl e \<Rightarrow> Failure e s
             | Inr priority \<Rightarrow>
                 Yield (next_items s, next_subtasks s, priority) (s\<lparr>next_items := [], next_subtasks := []\<rparr>))"

definition agg_pass :: "bool \<Rightarrow> chunking_state \<Rightarrow> pass_result" where
  "agg_pass return_partial_payload s =
     (if agg_subtask_pool s = [] then NoYield False s
      else (case fill_from_pool (parent_objs s) DPS_LIMIT_AGG (agg_subtask_pool s) (next_items s) (next_subtasks s)
                   (limit_tally False (next_items s) (next_subtasks s)) of
              (task_pool, its, subs, outcome) \<Rightarrow>
                (let s' = s\<lparr>agg_subtask_pool := task_pool, next_items := its, next_subtasks := subs\<rparr>
                 in if payload_done return_partial_payload (outcome = AtMaxItems)
                         (outcome = PayloadFull) False s'
                    then emit s' else NoYield (outcome = PayloadFull) s')))"

definition raw_pass :: "bool \<Rightarrow> bool \<Rightarrow> chunking_state \<Rightarrow> pass_result" where
  "raw_pass return_partial_payload full_agg s =
     (if raw_subtask_pool s = [] then NoYield full_agg s
      else (case fill_from_pool (parent_objs s) DPS_LIMIT (raw_subtask_pool s) (next_items s) (next_subtasks s)
                   (limit_tally True (next_items s) (next_subtasks s)) of
              (task_pool, its, subs, outcome) \<Rightarrow>
                (let s' = s\<lparr>raw_subtask_pool := task_pool, next_items := its, next_subtasks := subs\<rparr>
                 in if payload_done return_partial_payload (outcome = AtMaxItems)
                         full_agg (outcome = PayloadFull) s'
                    then emit s' else NoYield full_agg s')))"

definition for_pools :: "bool \<Rightarrow> chunking_state \<Rightarrow> pass_result" where
  "for_pools return_partial_payload s =
     (case agg_pass return_partial_payload s of
        NoYield full_agg s' \<Rightarrow> raw_pass return_partial_payload full_agg s'
      | r \<Rightarrow> r)"


lemma fill_from_pool_shrinks:
  "fill_from_pool parents m pool its subs u = (pool', its', subs', out) \<Longrightarrow>
   length pool' \<le> length pool \<and> (out = Drained \<longrightarrow> pool' = []) \<and>
   (length pool' = length pool \<longrightarrow> its' = its \<and> subs' = subs)"
proof (induction parents m pool its subs u arbitrary: pool' its' subs' out rule: fill_from_pool.induct)
  case (1 parents m its subs u)
  then show ?case by simp
next
  case (2 parents m x task_pool its subs u)
  obtain priority key_limit tiebreak next_task where x: "x = (priority, key_limit, tiebreak, next_task)"
    by (cases x) auto
  show ?case
  proof (cases "int (length its) + 1 > FETCH_TS_LIMIT")
    case True
    with "2.prems" show ?thesis by simp
  next
    case nmax: False
    show ?thesis
    proof (cases "get_next_payload parents next_task")
      case None
      with "2.prems" nmax x have
        "fill_from_pool parents m task_pool its subs u = (pool', its', subs', out)" by simp
      from "2.IH"(1)[OF nmax x[symmetric] refl refl None this] show ?thesis by auto
    next
      case (Some payload)
      show ?thesis
      proof (cases "sub_is_done next_task")
        case True
        with "2.prems" nmax x Some have
          "fill_from_pool parents m task_pool its subs u = (pool', its', subs', out)" by simp
        from "2.IH"(2)[OF nmax x[symmetric] refl refl Some True this] show ?thesis by auto
      next
        case nd: False
        show ?thesis
        proof (cases "u + item_limit payload \<le> m")
          case True
          with "2.prems" nmax x Some nd have
            "fill_from_pool parents m task_pool (its @ [payload]) (subs @ [next_task]) (u + item_limit payload) =
               (pool', its', subs', out)" by simp
          from "2.IH"(3)[OF nmax x[symmetric] refl refl Some nd True this] show ?thesis by auto
        next
          case False
          with "2.prems" nmax x Some nd show ?thesis by simp
        qed
      qed
    qed
  qed
qed


lemma emit_Yield:
  "emit s = Yield b s' \<Longrightarrow>
   next_subtasks s \<noteq> [] \<and> s' = s\<lparr>next_items := [], next_subtasks := []\<rparr> \<and>
   fst b = next_items s \<and> fst (snd b) = next_subtasks s"
  by (auto simp: emit_def mean_priority_def split: if_splits)

lemma emit_not_NoYield: "emit s \<noteq> NoYield f s'"
  by (auto simp: emit_def mean_priority_def split: if_splits)

lemma agg_pass_NoYield:
  assumes "agg_pass rp s = NoYield f s'"
  shows "raw_subtask_pool s' = raw_subtask_pool s \<and>
         length (agg_subtask_pool s') \<le> length (agg_subtask_pool s) \<and>
         (f \<or> agg_subtask_pool s' = [])"
proof (cases "agg_subtask_pool s = []")
  case True
  with assms show ?thesis by (simp add: agg_pass_def)
next
  case False
  obtain task_pool its subs outcome where
    fill: "fill_from_pool (parent_objs s) DPS_LIMIT_AGG (agg_subtask_pool s) (next_items s) (next_subtasks s)
             (limit_tally False (next_items s) (next_subtasks s)) = (task_pool, its, subs, outcome)"
    by (metis prod_cases4)
  note sh = fill_from_pool_shrinks[OF fill]
  from assms False fill have
    s': "s' = s\<lparr>agg_subtask_pool := task_pool, next_items := its, next_subtasks := subs\<rparr>"
    and f: "f = (outcome = PayloadFull)"
    and nd: "\<not> payload_done rp (outcome = AtMaxItems) (outcome = PayloadFull) False s'"
    by (auto simp: agg_pass_def Let_def emit_not_NoYield split: if_splits)
  from nd have "outcome \<noteq> AtMaxItems" by (auto simp: payload_done_def)
  then have "outcome = PayloadFull \<or> outcome = Drained" by (cases outcome) auto
  with sh s' f show ?thesis by auto
qed

lemma agg_pass_Yield:
  assumes "agg_pass rp s = Yield b s'"
  shows "raw_subtask_pool s' = raw_subtask_pool s \<and>
         length (agg_subtask_pool s') \<le> length (agg_subtask_pool s) \<and>
         next_subtasks s' = [] \<and> next_items s' = [] \<and>
         (length (agg_subtask_pool s') = length (agg_subtask_pool s) \<longrightarrow> next_subtasks s \<noteq> [])"
proof (cases "agg_subtask_pool s = []")
  case True
  with assms show ?thesis by (simp add: agg_pass_def)
next
  case False
  obtain task_pool its subs outcome where
    fill: "fill_from_pool (parent_objs s) DPS_LIMIT_AGG (agg_subtask_pool s) (next_items s) (next_subtasks s)
             (limit_tally False (next_items s) (next_subtasks s)) = (task_pool, its, subs, outcome)"
    by (metis prod_cases4)
  note sh = fill_from_pool_shrinks[OF fill]
  from assms False fill have
    e: "emit (s\<lparr>agg_subtask_pool := task_pool, next_items := its, next_subtasks := subs\<rparr>) = Yield b s'"
    by (auto simp: agg_pass_def Let_def split: if_splits)
  from emit_Yield[OF e] sh show ?thesis by auto
qed

lemma raw_pass_NoYield:
  assumes "raw_pass rp f s = NoYield f' s'"
  shows "agg_subtask_pool s' = agg_subtask_pool s \<and>
         length (raw_subtask_pool s') \<le> length (raw_subtask_pool s) \<and>
         (raw_subtask_pool s \<noteq> [] \<longrightarrow> f \<or> agg_subtask_pool s = [] \<longrightarrow>
            length (raw_subtask_pool s') < length (raw_subtask_pool s))"
proof (cases "raw_subtask_pool s = []")
  case True
  with assms show ?thesis by (simp add: raw_pass_def)
next
  case False
  obtain task_pool its subs outcome where
    fill: "fill_from_pool (parent_objs s) DPS_LIMIT (raw_subtask_pool s) (next_items s) (next_subtasks s)
             (limit_tally True (next_items s) (next_subtasks s)) = (task_pool, its, subs, outcome)"
    by (metis prod_cases4)
  note sh = fill_from_pool_shrinks[OF fill]
  from assms False fill have
    s': "s' = s\<lparr>raw_subtask_pool := task_pool, next_items := its, next_subtasks := subs\<rparr>"
    and nd: "\<not> payload_done rp (outcome = AtMaxItems) f (outcome = PayloadFull) s'"
    by (auto simp: raw_pass_def Let_def emit_not_NoYield split: if_splits)
  have "f \<or> agg_subtask_pool s = [] \<Longrightarrow> outcome = Drained"
    using nd s' by (cases outcome) (auto simp: payload_done_def)
  with sh s' False show ?thesis by auto
qed

lemma raw_pass_Yield:
  assumes "raw_pass rp f s = Yield b s'"
  shows "agg_subtask_pool s' = agg_subtask_pool s \<and>
         length (raw_subtask_pool s') \<le> length (raw_subtask_pool s) \<and>
         next_subtasks s' = [] \<and> next_items s' = [] \<and>
         (length (raw_subtask_pool s') = length (raw_subtask_pool s) \<longrightarrow> next_subtasks s \<noteq> [])"
proof (cases "raw_subtask_pool s = []")
  case True
  with assms show ?thesis by (simp add: raw_pass_def)
next
  case False
  obtain task_pool its subs outcome where
    fill: "fill_from_pool (parent_objs s) DPS_LIMIT (raw_subtask_pool s) (next_items s) (next_subtasks s)
             (limit_tally True (next_items s) (next_subtasks s)) = (task_pool, its, subs, outcome)"
    by (metis prod_cases4)
  note sh = fill_from_pool_shrinks[OF fill]
  from assms False fill have
    e: "emit (s\<lparr>raw_subtask_pool := task_pool, next_items := its, next_subtasks := subs\<rparr>) = Yield b s'"
    by (auto simp: raw_pass_def Let_def split: if_splits)
  from emit_Yield[OF e] sh show ?thesis by auto
qed


text \<open>
  The outer \<^verbatim>\<open>while any(self.subtask_pools)\<close> loop ends: a round that yields nothing
  shortens a pool, and a round that yields without shortening a pool empties the partial
  payload, after which the next round shortens a pool or yields nothing.
\<close>

definition pool_total :: "chunking_state \<Rightarrow> nat" where
  "pool_total s = length (agg_subtask_pool s) + length (raw_subtask_pool s)"

lemma for_pools_NoYield:
  assumes "for_pools rp s = NoYield f s'"
    and "agg_subtask_pool s \<noteq> [] \<or> raw_subtask_pool s \<noteq> []"
  shows "pool_total s' < pool_total s"
proof -
  from assms(1) obtain f1 s1 where a: "agg_pass rp s = NoYield f1 s1"
    and r: "raw_pass rp f1 s1 = NoYield f s'"
    by (auto simp: for_pools_def split: pass_result.splits)
  note A = agg_pass_NoYield[OF a] and R = raw_pass_NoYield[OF r]
  show ?thesis
  proof (cases "raw_subtask_pool s1 = []")
    case True
    with A assms(2) have "agg_subtask_pool s \<noteq> []" by auto
    have "f1 \<Longrightarrow> False"
    proof -
      assume f1
      from a \<open>agg_subtask_pool s \<noteq> []\<close> obtain task_pool its subs outcome where
        fill: "fill_from_pool (parent_objs s) DPS_LIMIT_AGG (agg_subtask_pool s) (next_items s) (next_subtasks s)
             (limit_tally False (next_items s) (next_subtasks s)) = (task_pool, its, subs, outcome)"
        by (metis prod_cases4)
      from a \<open>agg_subtask_pool s \<noteq> []\<close> fill have
        s1: "s1 = s\<lparr>agg_subtask_pool := task_pool, next_items := its, next_subtasks := subs\<rparr>"
        and f: "f1 = (outcome = PayloadFull)"
        and nd: "\<not> payload_done rp (outcome = AtMaxItems) (outcome = PayloadFull) False s1"
        by (auto simp: agg_pass_def Let_def emit_not_NoYield split: if_splits)
      from nd f \<open>f1\<close> True show False by (auto simp: payload_done_def)
    qed
    with A have "agg_subtask_pool s1 = []" by auto
    with \<open>agg_subtask_pool s \<noteq> []\<close> A R show ?thesis by (auto simp: pool_total_def)
  next
    case False
    with A R show ?thesis by (auto simp: pool_total_def)
  qed
qed

lemma for_pools_Yield:
  assumes "for_pools rp s = Yield b s'"
  shows "pool_total s' \<le> pool_total s \<and> next_subtasks s' = [] \<and> next_items s' = [] \<and>
         (pool_total s' = pool_total s \<longrightarrow> next_subtasks s \<noteq> [])"
proof (cases "agg_pass rp s")
  case (Yield b1 s1)
  with assms have "b1 = b" "s1 = s'" by (simp_all add: for_pools_def)
  with agg_pass_Yield[of rp s b s'] Yield show ?thesis by (auto simp: pool_total_def)
next
  case (NoYield f1 s1)
  with assms have r: "raw_pass rp f1 s1 = Yield b s'" by (simp add: for_pools_def)
  note A = agg_pass_NoYield[OF NoYield] and R = raw_pass_Yield[OF r]
  have same: "length (agg_subtask_pool s1) = length (agg_subtask_pool s) \<Longrightarrow>
      next_subtasks s1 = next_subtasks s"
  proof (cases "agg_subtask_pool s = []")
    case True
    with NoYield show ?thesis by (simp add: agg_pass_def)
  next
    case False
    assume eq: "length (agg_subtask_pool s1) = length (agg_subtask_pool s)"
    obtain task_pool its subs outcome where
      fill: "fill_from_pool (parent_objs s) DPS_LIMIT_AGG (agg_subtask_pool s) (next_items s) (next_subtasks s)
             (limit_tally False (next_items s) (next_subtasks s)) = (task_pool, its, subs, outcome)"
      by (metis prod_cases4)
    from NoYield False fill have
      s1: "s1 = s\<lparr>agg_subtask_pool := task_pool, next_items := its, next_subtasks := subs\<rparr>"
      by (auto simp: agg_pass_def Let_def emit_not_NoYield split: if_splits)
    from fill_from_pool_shrinks[OF fill] s1 eq show ?thesis by auto
  qed
  from A R same show ?thesis by (auto simp: pool_total_def)
next
  case (Failure e s1)
  with assms show ?thesis by (simp add: for_pools_def)
qed

text \<open>
  \<^verbatim>\<open>_combine_subtasks_into_requests\<close>, run to its end: the batches yielded in order, the
  error raised if any, and the state left.
\<close>

function combine_loop :: "bool \<Rightarrow> chunking_state \<Rightarrow> batch list \<times> py_error option \<times> chunking_state" where
  "combine_loop return_partial_payload s =
     (if \<not> (agg_subtask_pool s \<noteq> [] \<or> raw_subtask_pool s \<noteq> []) then ([], None, s)
      else (case for_pools return_partial_payload s of
              Yield b s' \<Rightarrow>
                (case combine_loop return_partial_payload s' of
                   (batches, e, s'') \<Rightarrow> (b # batches, e, s''))
            | NoYield full_agg s' \<Rightarrow> combine_loop return_partial_payload s'
            | Failure e s' \<Rightarrow> ([], Some e, s')))"
  by pat_completeness auto
termination
proof (relation "measures [\<lambda>(rp, s). pool_total s,
                           \<lambda>(rp, s). if next_subtasks s = [] then 0 else 1]", goal_cases)
  case 1
  then show ?case by simp
next
  case (2 rp s b s')
  from for_pools_Yield[OF 2(2)] show ?case by auto
next
  case (3 rp s f s')
  from for_pools_NoYield[OF 3(2)] 3(1) show ?case by auto
qed

declare combine_loop.simps [simp del]


subsection \<open>The request caps\<close>

definition within_caps :: "dps_item list \<Rightarrow> subtask list \<Rightarrow> bool" where
  "within_caps its subs \<longleftrightarrow>
     limit_tally True its subs \<le> DPS_LIMIT \<and>
     limit_tally False its subs \<le> DPS_LIMIT_AGG \<and>
     int (length its) \<le> FETCH_TS_LIMIT"

text \<open>
  The state invariant: each pool holds subtasks of its own flavour, and the partial payload
  pairs every item with its subtask and is within the caps.
\<close>

definition pool_flavour :: "bool \<Rightarrow> pool_subtask list \<Rightarrow> bool" where
  "pool_flavour is_raw pool = list_all (\<lambda>(priority, key_limit, tiebreak, task). sub_is_raw_query task = is_raw) pool"

definition combine_inv :: "chunking_state \<Rightarrow> bool" where
  "combine_inv s \<longleftrightarrow>
     pool_flavour False (agg_subtask_pool s) \<and> pool_flavour True (raw_subtask_pool s) \<and>
     length (next_items s) = length (next_subtasks s) \<and>
     within_caps (next_items s) (next_subtasks s)"

fun result_ok :: "pass_result \<Rightarrow> bool" where
  "result_ok (Yield b s') =
     (within_caps (fst b) (fst (snd b)) \<and> length (fst b) = length (fst (snd b)) \<and> combine_inv s')"
| "result_ok (NoYield f s') = combine_inv s'"
| "result_ok (Failure e s') = True"

lemma limit_tally_append:
  "length its = length subs \<Longrightarrow>
   limit_tally r (its @ [payload]) (subs @ [task]) =
   limit_tally r its subs + (if sub_is_raw_query task = r then item_limit payload else 0)"
  by (simp add: limit_tally_def)

lemma limit_tally_Nil: "limit_tally r [] [] = 0"
  by (simp add: limit_tally_def)

lemma fill_from_pool_caps:
  "fill_from_pool parents m pool its subs u = (pool', its', subs', out) \<Longrightarrow>
   pool_flavour r pool \<Longrightarrow> length its = length subs \<Longrightarrow>
   u = limit_tally r its subs \<Longrightarrow> u \<le> m \<Longrightarrow> int (length its) \<le> FETCH_TS_LIMIT \<Longrightarrow>
   pool_flavour r pool' \<and> length its' = length subs' \<and> limit_tally r its' subs' \<le> m \<and>
   limit_tally (\<not> r) its' subs' = limit_tally (\<not> r) its subs \<and> int (length its') \<le> FETCH_TS_LIMIT"
proof (induction parents m pool its subs u arbitrary: pool' its' subs' out rule: fill_from_pool.induct)
  case (1 parents m its subs u)
  then show ?case by simp
next
  case (2 parents m x task_pool its subs u)
  obtain priority key_limit tiebreak next_task where x: "x = (priority, key_limit, tiebreak, next_task)"
    by (cases x) auto
  from "2.prems"(2) x have fl: "pool_flavour r task_pool" and raw: "sub_is_raw_query next_task = r"
    by (simp_all add: pool_flavour_def)
  note run = "2.prems"(1) and len = "2.prems"(3) and u = "2.prems"(4) and le = "2.prems"(5)
    and cnt = "2.prems"(6)
  show ?case
  proof (cases "int (length its) + 1 > FETCH_TS_LIMIT")
    case True
    with run "2.prems" show ?thesis by simp
  next
    case nmax: False
    show ?thesis
    proof (cases "get_next_payload parents next_task")
      case None
      with run nmax x have
        "fill_from_pool parents m task_pool its subs u = (pool', its', subs', out)" by simp
      from "2.IH"(1)[OF nmax x[symmetric] refl refl None this fl len u le cnt] show ?thesis .
    next
      case (Some payload)
      show ?thesis
      proof (cases "sub_is_done next_task")
        case True
        with run nmax x Some have
          "fill_from_pool parents m task_pool its subs u = (pool', its', subs', out)" by simp
        from "2.IH"(2)[OF nmax x[symmetric] refl refl Some True this fl len u le cnt] show ?thesis .
      next
        case nd: False
        show ?thesis
        proof (cases "u + item_limit payload \<le> m")
          case True
          with run nmax x Some nd have r:
            "fill_from_pool parents m task_pool (its @ [payload]) (subs @ [next_task]) (u + item_limit payload) =
               (pool', its', subs', out)" by simp
          have len': "length (its @ [payload]) = length (subs @ [next_task])" using len by simp
          have u': "u + item_limit payload = limit_tally r (its @ [payload]) (subs @ [next_task])"
            using u raw by (simp add: limit_tally_append[OF len])
          have cnt': "int (length (its @ [payload])) \<le> FETCH_TS_LIMIT" using nmax by simp
          have other: "limit_tally (\<not> r) (its @ [payload]) (subs @ [next_task]) = limit_tally (\<not> r) its subs"
            using raw by (auto simp add: limit_tally_append[OF len])
          from "2.IH"(3)[OF nmax x[symmetric] refl refl Some nd True r fl len' u' True cnt'] other
          show ?thesis by simp
        next
          case False
          with run nmax x Some nd "2.prems" show ?thesis by simp
        qed
      qed
    qed
  qed
qed

lemma emit_ok:
  assumes "combine_inv s"
  shows "result_ok (emit s)"
  using assms
  by (auto simp: emit_def mean_priority_def combine_inv_def within_caps_def limit_tally_Nil
      DPS_LIMIT_def DPS_LIMIT_AGG_def FETCH_TS_LIMIT_def)

lemma agg_pass_ok:
  assumes inv: "combine_inv s"
  shows "result_ok (agg_pass rp s)"
proof (cases "agg_subtask_pool s = []")
  case True
  with inv show ?thesis by (simp add: agg_pass_def)
next
  case False
  obtain task_pool its subs outcome where
    fill: "fill_from_pool (parent_objs s) DPS_LIMIT_AGG (agg_subtask_pool s) (next_items s) (next_subtasks s)
             (limit_tally False (next_items s) (next_subtasks s)) = (task_pool, its, subs, outcome)"
    by (metis prod_cases4)
  from inv have pre: "pool_flavour False (agg_subtask_pool s)"
    "length (next_items s) = length (next_subtasks s)"
    "limit_tally False (next_items s) (next_subtasks s) \<le> DPS_LIMIT_AGG"
    "int (length (next_items s)) \<le> FETCH_TS_LIMIT"
    by (simp_all add: combine_inv_def within_caps_def)
  from fill_from_pool_caps[OF fill pre(1) pre(2) refl pre(3) pre(4)] inv
  have inv': "combine_inv (s\<lparr>agg_subtask_pool := task_pool, next_items := its, next_subtasks := subs\<rparr>)"
    by (simp add: combine_inv_def within_caps_def)
  from emit_ok[OF inv'] inv' False fill show ?thesis
    by (simp add: agg_pass_def Let_def)
qed

lemma raw_pass_ok:
  assumes inv: "combine_inv s"
  shows "result_ok (raw_pass rp f s)"
proof (cases "raw_subtask_pool s = []")
  case True
  with inv show ?thesis by (simp add: raw_pass_def)
next
  case False
  obtain task_pool its subs outcome where
    fill: "fill_from_pool (parent_objs s) DPS_LIMIT (raw_subtask_pool s) (next_items s) (next_subtasks s)
             (limit_tally True (next_items s) (next_subtasks s)) = (task_pool, its, subs, outcome)"
    by (metis prod_cases4)
  from inv have pre: "pool_flavour True (raw_subtask_pool s)"
    "length (next_items s) = length (next_subtasks s)"
    "limit_tally True (next_items s) (next_subtasks s) \<le> DPS_LIMIT"
    "int (length (next_items s)) \<le> FETCH_TS_LIMIT"
    by (simp_all add: combine_inv_def within_caps_def)
  from fill_from_pool_caps[OF fill pre(1) pre(2) refl pre(3) pre(4)] inv
  have inv': "combine_inv (s\<lparr>raw_subtask_pool := task_pool, next_items := its, next_subtasks := subs\<rparr>)"
    by (simp add: combine_inv_def within_caps_def)
  from emit_ok[OF inv'] inv' False fill show ?thesis
    by (simp add: raw_pass_def Let_def)
qed

lemma for_pools_ok:
  assumes inv: "combine_inv s"
  shows "result_ok (for_pools rp s)"
proof (cases "agg_pass rp s")
  case (Yield b s1)
  with agg_pass_ok[OF inv, of rp] show ?thesis by (simp add: for_pools_def)
next
  case (NoYield f1 s1)
  with agg_pass_ok[OF inv, of rp] have "combine_inv s1" by simp
  from raw_pass_ok[OF this, of rp f1] NoYield show ?thesis by (simp add: for_pools_def)
next
  case (Failure e s1)
  then show ?thesis by (simp add: for_pools_def)
qed

lemma combine_loop_empty:
  "\<not> (agg_subtask_pool s \<noteq> [] \<or> raw_subtask_pool s \<noteq> []) \<Longrightarrow> combine_loop rp s = ([], None, s)"
  by (simp add: combine_loop.simps[of rp s])

lemma combine_loop_Yield:
  "agg_subtask_pool s \<noteq> [] \<or> raw_subtask_pool s \<noteq> [] \<Longrightarrow> for_pools rp s = Yield b s1 \<Longrightarrow>
   combine_loop rp s1 = (bs1, e1, s1') \<Longrightarrow> combine_loop rp s = (b # bs1, e1, s1')"
  by (simp add: combine_loop.simps[of rp s])

lemma combine_loop_NoYield:
  "agg_subtask_pool s \<noteq> [] \<or> raw_subtask_pool s \<noteq> [] \<Longrightarrow> for_pools rp s = NoYield f s1 \<Longrightarrow>
   combine_loop rp s = combine_loop rp s1"
  by (simp add: combine_loop.simps[of rp s])

lemma combine_loop_Failure:
  "agg_subtask_pool s \<noteq> [] \<or> raw_subtask_pool s \<noteq> [] \<Longrightarrow> for_pools rp s = Failure e1 s1 \<Longrightarrow>
   combine_loop rp s = ([], Some e1, s1)"
  by (simp add: combine_loop.simps[of rp s])

lemma combine_loop_caps:
  "combine_inv s \<Longrightarrow> combine_loop rp s = (batches, e, s') \<Longrightarrow>
   list_all (\<lambda>b. within_caps (fst b) (fst (snd b)) \<and> length (fst b) = length (fst (snd b))) batches \<and>
   (e = None \<longrightarrow> combine_inv s')"
proof (induction rp s arbitrary: batches e s' rule: combine_loop.induct)
  case (1 rp s)
  note inv = "1.prems"(1) and run = "1.prems"(2)
  show ?case
  proof (cases "\<not> (agg_subtask_pool s \<noteq> [] \<or> raw_subtask_pool s \<noteq> [])")
    case True
    from run inv show ?thesis unfolding combine_loop_empty[OF True] by simp
  next
    case False
    then have ne: "agg_subtask_pool s \<noteq> [] \<or> raw_subtask_pool s \<noteq> []" by simp
    note ok = for_pools_ok[OF inv, of rp]
    show ?thesis
    proof (cases "for_pools rp s")
      case (Yield b s1)
      obtain bs1 e1 s1' where rec: "combine_loop rp s1 = (bs1, e1, s1')" by (metis prod_cases3)
      from run have eq: "batches = b # bs1" "e = e1" "s' = s1'"
        unfolding combine_loop_Yield[OF ne Yield rec] by simp_all
      from ok have b: "within_caps (fst b) (fst (snd b))" "length (fst b) = length (fst (snd b))"
        and inv1: "combine_inv s1" unfolding Yield by simp_all
      from "1.IH"(1)[OF False Yield inv1 rec] b eq show ?thesis by simp
    next
      case (NoYield f s1)
      from run have rec: "combine_loop rp s1 = (batches, e, s')"
        unfolding combine_loop_NoYield[OF ne NoYield] .
      from ok have inv1: "combine_inv s1" unfolding NoYield by simp
      from "1.IH"(2)[OF False NoYield inv1 rec] show ?thesis .
    next
      case (Failure e1 s1)
      from run show ?thesis unfolding combine_loop_Failure[OF ne Failure] by auto
    qed
  qed
qed



text \<open>
  The state of a new fetcher, and \<^verbatim>\<open>_cancel_subtasks\<close>: every subtask of a finished
  task is marked done where it is, in the pools and in the partial payload.
\<close>

definition chunking_init :: "(nat \<Rightarrow> ts_task) \<Rightarrow> chunking_state" where
  "chunking_init parents =
     \<lparr>agg_subtask_pool = [], raw_subtask_pool = [], next_items = [], next_subtasks = [],
      parent_objs = parents\<rparr>"

definition mark_done :: "nat list \<Rightarrow> subtask \<Rightarrow> subtask" where
  "mark_done done_ts_tasks task =
     (if sub_parent task \<in> set done_ts_tasks then task\<lparr>sub_is_done := True\<rparr> else task)"

definition cancel_subtasks :: "nat list \<Rightarrow> chunking_state \<Rightarrow> chunking_state" where
  "cancel_subtasks done_ts_tasks s =
     s\<lparr>agg_subtask_pool := map (\<lambda>(priority, key_limit, tiebreak, task).
                                  (priority, key_limit, tiebreak, mark_done done_ts_tasks task))
                              (agg_subtask_pool s),
       raw_subtask_pool := map (\<lambda>(priority, key_limit, tiebreak, task).
                                  (priority, key_limit, tiebreak, mark_done done_ts_tasks task))
                              (raw_subtask_pool s),
       next_subtasks := map (mark_done done_ts_tasks) (next_subtasks s)\<rparr>"

text \<open>Concrete pools used by the examples below.\<close>

definition example_pool_subtask :: "nat \<Rightarrow> bool \<Rightarrow> int \<Rightarrow> subtask" where
  "example_pool_subtask n raw l =
     \<lparr>sid = n, sub_parent = n, sub_priority = 0, sub_is_raw_query = raw, sub_is_done = False,
      sub_n_dps_left = None, sub_max_query_limit = l,
      next_payload = Some \<lparr>item_ident = Id (int n), item_start = 0, item_end = 1000, item_limit = l\<rparr>\<rparr>"

definition example_parents :: "nat \<Rightarrow> ts_task" where
  "example_parents k = \<lparr>query = example_query k True, is_done = False, has_limit = True\<rparr>"

definition example_pools :: chunking_state where
  "example_pools =
     \<lparr>agg_subtask_pool = [(0, 6000, 1, example_pool_subtask 1 False 6000),
                          (0, 6000, 2, example_pool_subtask 2 False 6000)],
      raw_subtask_pool = [(0, 70000, 3, example_pool_subtask 3 True 70000)],
      next_items = [], next_subtasks = [], parent_objs = example_parents\<rparr>"

lemma combine_inv_init: "combine_inv (chunking_init parents)"
  by (simp add: combine_inv_def chunking_init_def pool_flavour_def within_caps_def limit_tally_Nil
      DPS_LIMIT_def DPS_LIMIT_AGG_def FETCH_TS_LIMIT_def)

lemma pool_flavour_heappush:
  "pool_flavour r (heappush x pool) \<longleftrightarrow> sub_is_raw_query (snd (snd (snd x))) = r \<and> pool_flavour r pool"
  by (cases x) (auto simp: pool_flavour_def heappush_def list_all_iff set_insort_key)

lemma combine_inv_add: "combine_inv s \<Longrightarrow> combine_inv (add_to_subtask_pools new_subtasks s)"
proof (induction new_subtasks s rule: add_to_subtask_pools.induct)
  case (1 s)
  then show ?case by simp
next
  case (2 tiebreak task new_subtasks s)
  let ?x = "(sub_priority task,
        (case sub_n_dps_left task of None \<Rightarrow> sub_max_query_limit task
         | Some n \<Rightarrow> min n (sub_max_query_limit task)), tiebreak, task)"
  from "2.prems" have "combine_inv (if sub_is_raw_query task
      then s\<lparr>raw_subtask_pool := heappush ?x (raw_subtask_pool s)\<rparr>
      else s\<lparr>agg_subtask_pool := heappush ?x (agg_subtask_pool s)\<rparr>)"
    by (simp add: combine_inv_def pool_flavour_heappush)
  from "2.IH"[OF refl refl this] show ?case by (simp add: Let_def)
qed

lemma mark_done_raw: "sub_is_raw_query (mark_done ps task) = sub_is_raw_query task"
  by (simp add: mark_done_def)

lemma limit_tally_mark_done:
  "limit_tally r its (map (mark_done ps) subs) = limit_tally r its subs"
proof (induction its arbitrary: subs)
  case Nil
  then show ?case by (simp add: limit_tally_def)
next
  case (Cons item its)
  then show ?case by (cases subs) (simp_all add: limit_tally_def mark_done_raw)
qed

lemma combine_inv_cancel: "combine_inv s \<Longrightarrow> combine_inv (cancel_subtasks ps s)"
  by (auto simp: combine_inv_def cancel_subtasks_def pool_flavour_def within_caps_def
      limit_tally_mark_done list_all_iff mark_done_raw)

text \<open>
  Claim C2. The invariant holds for a new fetcher and is kept by every operation on the
  pools: adding subtasks, cancelling the subtasks of finished tasks, and combining (when no
  error is raised). In a state with the invariant, every batch that
  \<^verbatim>\<open>_combine_subtasks_into_requests\<close> yields is within the three caps at once: the limits
  of its raw items sum to at most 100000, those of its aggregate items to at most 10000, and
  it has at most 100 items.
\<close>

theorem combine_subtasks_into_requests_within_caps:
  assumes "combine_inv s"
  shows "(\<forall>(batch_items, batch_subtasks, priority) \<in> set (fst (combine_loop return_partial_payload s)).
            sum_list (map (item_limit \<circ> fst)
              (filter (\<lambda>(item, task). sub_is_raw_query task) (zip batch_items batch_subtasks))) \<le> 100000 \<and>
            sum_list (map (item_limit \<circ> fst)
              (filter (\<lambda>(item, task). \<not> sub_is_raw_query task) (zip batch_items batch_subtasks))) \<le> 10000 \<and>
            length batch_items \<le> 100 \<and> length batch_subtasks = length batch_items) \<and>
         (fst (snd (combine_loop return_partial_payload s)) = None \<longrightarrow>
            combine_inv (snd (snd (combine_loop return_partial_payload s)))) \<and>
         combine_inv (add_to_subtask_pools new_subtasks s) \<and>
         combine_inv (cancel_subtasks done_ts_tasks s) \<and>
         combine_inv (chunking_init parents)"
proof -
  obtain batches e s' where run: "combine_loop return_partial_payload s = (batches, e, s')"
    by (metis prod_cases3)
  note caps = combine_loop_caps[OF assms run]
  have "\<forall>(batch_items, batch_subtasks, priority) \<in> set batches.
            sum_list (map (item_limit \<circ> fst)
              (filter (\<lambda>(item, task). sub_is_raw_query task) (zip batch_items batch_subtasks))) \<le> 100000 \<and>
            sum_list (map (item_limit \<circ> fst)
              (filter (\<lambda>(item, task). \<not> sub_is_raw_query task) (zip batch_items batch_subtasks))) \<le> 10000 \<and>
            length batch_items \<le> 100 \<and> length batch_subtasks = length batch_items"
  proof (clarify)
    fix batch_items batch_subtasks priority
    assume "(batch_items, batch_subtasks, priority) \<in> set batches"
    with caps have "within_caps batch_items batch_subtasks"
      and "length batch_items = length batch_subtasks"
      by (auto simp: list_all_iff)
    then show "sum_list (map (item_limit \<circ> fst)
              (filter (\<lambda>(item, task). sub_is_raw_query task) (zip batch_items batch_subtasks))) \<le> 100000 \<and>
            sum_list (map (item_limit \<circ> fst)
              (filter (\<lambda>(item, task). \<not> sub_is_raw_query task) (zip batch_items batch_subtasks))) \<le> 10000 \<and>
            length batch_items \<le> 100 \<and> length batch_subtasks = length batch_items"
      by (simp add: within_caps_def limit_tally_def DPS_LIMIT_def DPS_LIMIT_AGG_def FETCH_TS_LIMIT_def)
  qed
  with caps run combine_inv_add[OF assms] combine_inv_cancel[OF assms] combine_inv_init
  show ?thesis by simp
qed

text \<open>
  Two aggregate subtasks of limit 6000 and a raw subtask of limit 70000: the second
  aggregate item would exceed the aggregate cap, so the one batch yielded holds the first
  aggregate item and the raw item.
\<close>

theorem combine_subtasks_into_requests_within_caps_witness:
  "combine_inv example_pools \<and>
   map (\<lambda>(batch_items, batch_subtasks, priority). (map item_limit batch_items, map sid batch_subtasks))
     (fst (combine_loop False example_pools)) = [([6000, 70000], [1, 3])] \<and>
   map item_limit (next_items (snd (snd (combine_loop False example_pools)))) = [6000] \<and>
   combine_inv (snd (snd (combine_loop False example_pools)))"
proof -
  have inv: "combine_inv example_pools"
    by (simp add: combine_inv_def example_pools_def pool_flavour_def within_caps_def limit_tally_Nil
        example_pool_subtask_def DPS_LIMIT_def DPS_LIMIT_AGG_def FETCH_TS_LIMIT_def)
  have run: "combine_loop False example_pools =
     ([([\<lparr>item_ident = Id 1, item_start = 0, item_end = 1000, item_limit = 6000\<rparr>,
         \<lparr>item_ident = Id 3, item_start = 0, item_end = 1000, item_limit = 70000\<rparr>],
        [example_pool_subtask 1 False 6000, example_pool_subtask 3 True 70000], 0)],
      None,
      \<lparr>agg_subtask_pool = [], raw_subtask_pool = [],
       next_items = [\<lparr>item_ident = Id 2, item_start = 0, item_end = 1000, item_limit = 6000\<rparr>],
       next_subtasks = [example_pool_subtask 2 False 6000], parent_objs = example_parents\<rparr>)"
    by (simp add: combine_loop.simps for_pools_def agg_pass_def raw_pass_def emit_def mean_priority_def
        payload_done_def limit_tally_def example_pools_def example_pool_subtask_def get_next_payload_def
        example_parents_def DPS_LIMIT_def DPS_LIMIT_AGG_def FETCH_TS_LIMIT_def)
  from combine_subtasks_into_requests_within_caps[OF inv, of False]
  have "combine_inv (snd (snd (combine_loop False example_pools)))"
    unfolding run by simp
  with inv run show ?thesis by (simp add: example_pool_subtask_def)
qed

text \<open>
  Claim C10 does not hold of the code. A raw subtask of task 7 is added to the pools of a new
  fetcher while the pool's queue is long; task 7 then finishes and its subtasks are marked
  done. Combining with \<^verbatim>\<open>return_partial_payload\<close> set pops the done subtask, which
  leaves both pools empty and the partial payload empty: \<^verbatim>\<open>payload_done\<close> holds by its
  last disjunct and \<^verbatim>\<open>statistics.mean\<close> is applied to no data.
\<close>

theorem combine_subtasks_into_requests_mean_of_no_data:
  "combine_loop True (cancel_subtasks [7]
       (add_to_subtask_pools [(1, example_pool_subtask 7 True 100)] (chunking_init example_parents))) =
     ([], Some StatisticsError, chunking_init example_parents)"
  by (simp add: combine_loop.simps for_pools_def agg_pass_def raw_pass_def emit_def mean_priority_def
      payload_done_def limit_tally_def chunking_init_def example_pool_subtask_def get_next_payload_def
      cancel_subtasks_def mark_done_def heappush_def
      example_parents_def DPS_LIMIT_def DPS_LIMIT_AGG_def FETCH_TS_LIMIT_def)

section \<open>Chunking mode: the initial requests\<close>

text \<open>
  Modelled from the spec: \<^verbatim>\<open>split_into_n_parts\<close> (\<^verbatim>\<open>cognite/client/utils/_auxiliary.py\<close>)
  is not among the sources; the specification asks for \<open>n\<close> near-equal chunks. It is taken
  as the strided split \<^verbatim>\<open>seq[i::n] for i in range(n)\<close>: the element at index \<open>k\<close> goes
  to chunk \<open>k mod n\<close>, so the chunk sizes differ by at most one, the longer chunks first.
\<close>

definition split_into_n_parts :: "nat \<Rightarrow> 'a list \<Rightarrow> 'a list list" where
  "split_into_n_parts n seq =
     map (\<lambda>i. map snd (filter (\<lambda>(k, x). k mod n = i) (enumerate 0 seq))) [0..<n]"

text \<open>
  \<^verbatim>\<open>initial_query_limits: Dict[_SingleTSQueryBase, int]\<close>: an association list in
  insertion order, keyed by the identity of the query object. Setting a key that is present
  keeps its position and replaces the value.
\<close>

type_synonym query_limits = "(ts_query \<times> int) list"

fun dict_set :: "ts_query \<Rightarrow> int \<Rightarrow> query_limits \<Rightarrow> query_limits" where
  "dict_set q v [] = [(q, v)]"
| "dict_set q v ((q', v') # d) =
     (if qid q' = qid q then (q', v) # d else (q', v') # dict_set q v d)"

definition dict_update :: "query_limits \<Rightarrow> (ts_query \<times> int) list \<Rightarrow> query_limits" where
  "dict_update d kvs = foldl (\<lambda>d (q, v). dict_set q v d) d kvs"

text \<open>
  \<^verbatim>\<open>ChunkingDpsFetcher._create_initial_tasks\<close>. What \<^verbatim>\<open>pool.submit\<close> receives is
  the request body and the priority; the future is listed with its pair of query chunks.
  \<^verbatim>\<open>q.to_payload()\<close> is not among the sources: it is the parameter \<open>to_payload\<close>, and
  \<^verbatim>\<open>{**q.to_payload(), "limit": lim}\<close> replaces the limit of the item it gives.
\<close>

record initial_request =
  req_payload :: dps_payload
  req_priority :: int

definition chunk_limits_items ::
  "(ts_query \<Rightarrow> dps_item) \<Rightarrow> ts_query list \<Rightarrow> int \<Rightarrow> query_limits \<times> dps_item list" where
  "chunk_limits_items to_payload queries max_lim =
     (let maxed_limits = find_initial_query_limits (map capped_limit queries) max_lim;
          chunk_query_limits = dict_update [] (zip queries maxed_limits)
      in (chunk_query_limits, map (\<lambda>(q, lim). (to_payload q)\<lparr>item_limit := lim\<rparr>) chunk_query_limits))"

fun create_requests ::
  "(ts_query \<Rightarrow> dps_item) \<Rightarrow> (ts_query list \<times> ts_query list) list \<Rightarrow> query_limits \<Rightarrow>
   query_limits \<times> (initial_request \<times> ts_query list \<times> ts_query list) list" where
  "create_requests to_payload [] initial_query_limits = (initial_query_limits, [])"
| "create_requests to_payload ((agg, raw) # query_chunks) initial_query_limits =
     (case chunk_limits_items to_payload agg DPS_LIMIT_AGG of (agg_limits, agg_items) \<Rightarrow>
      case chunk_limits_items to_payload raw DPS_LIMIT of (raw_limits, raw_items) \<Rightarrow>
      case create_requests to_payload query_chunks
             (dict_update (dict_update initial_query_limits agg_limits) raw_limits) of
        (limits', futures) \<Rightarrow>
          (limits',
           (\<lparr>req_payload = \<lparr>ignoreUnknownIds = Some True, items = agg_items @ raw_items\<rparr>,
             req_priority = 0\<rparr>, agg, raw) # futures))"

definition create_initial_tasks ::
  "(ts_query \<Rightarrow> dps_item) \<Rightarrow> fetcher_args \<Rightarrow>
   query_limits \<times> (initial_request \<times> ts_query list \<times> ts_query list) list" where
  "create_initial_tasks to_payload args =
     (let n_queries = max (max_workers args)
                          (py_ceil_div (int (length (all_queries args))) FETCH_TS_LIMIT)
      in create_requests to_payload
           (zip (split_into_n_parts (nat n_queries) (agg_queries args))
                (split_into_n_parts (nat n_queries) (raw_queries args))) [])"

text \<open>
  Two workers, one aggregate query and 199 raw queries, each with its own identity.
\<close>

definition example_args :: fetcher_args where
  "example_args =
     \<lparr>all_queries = (example_query 0 False)\<lparr>max_query_limit := 10000\<rparr> # map (\<lambda>n. example_query n True) [1..<200],
      agg_queries = [(example_query 0 False)\<lparr>max_query_limit := 10000\<rparr>],
      raw_queries = map (\<lambda>n. example_query n True) [1..<200],
      max_workers = 2\<rparr>"


lemma find_initial_query_limits_length:
  assumes "\<forall>l \<in> set lims. 0 \<le> l" and "0 \<le> max_lim"
  shows "length (find_initial_query_limits lims max_lim) = length lims"
proof -
  from limits_inv_while[OF limits_inv_init[OF assms]] obtain nd' where
    "limits_inv lims max_lim nd' (while_not_done [0..<length lims]
       \<lparr>actual_lims = replicate (length lims) 0, limits = lims, max_limit = max_lim\<rparr>)" by blast
  then show ?thesis by (simp add: find_initial_query_limits_def limits_inv_def)
qed

lemma dict_set_new: "qid q \<notin> set (map (qid \<circ> fst) d) \<Longrightarrow> dict_set q v d = d @ [(q, v)]"
  by (induction d) auto

lemma dict_update_distinct:
  "distinct (map (qid \<circ> fst) (d @ kvs)) \<Longrightarrow> dict_update d kvs = d @ kvs"
proof (induction kvs arbitrary: d)
  case Nil
  then show ?case by (simp add: dict_update_def)
next
  case (Cons kv kvs)
  obtain q v where kv: "kv = (q, v)" by (cases kv)
  from Cons.prems kv have new: "qid q \<notin> set (map (qid \<circ> fst) d)" by auto
  from Cons.prems kv have "distinct (map (qid \<circ> fst) ((d @ [(q, v)]) @ kvs))"
    by (auto simp: comp_def)
  from Cons.IH[OF this] have "dict_update (d @ [(q, v)]) kvs = d @ (q, v) # kvs" by simp
  with new kv show ?case by (simp add: dict_update_def dict_set_new)
qed

lemma chunk_limits_items_length:
  assumes "distinct (map qid queries)" and "\<forall>q \<in> set queries. 0 \<le> capped_limit q" and "0 \<le> max_lim"
  shows "length (snd (chunk_limits_items to_payload queries max_lim)) = length queries"
proof -
  let ?lims = "find_initial_query_limits (map capped_limit queries) max_lim"
  have len: "length ?lims = length queries"
    using find_initial_query_limits_length[of "map capped_limit queries" max_lim] assms by simp
  then have "map (qid \<circ> fst) (zip queries ?lims) = map qid queries"
    by (simp add: map_fst_zip flip: map_map)
  with assms(1) have "dict_update [] (zip queries ?lims) = zip queries ?lims"
    using dict_update_distinct[of "[]" "zip queries ?lims"] by simp
  with len show ?thesis by (simp add: chunk_limits_items_def Let_def)
qed

lemma create_requests_item_counts:
  "(\<forall>(agg, raw) \<in> set chunks. distinct (map qid agg) \<and> distinct (map qid raw) \<and>
       (\<forall>q \<in> set agg \<union> set raw. 0 \<le> capped_limit q)) \<Longrightarrow>
   map (\<lambda>(r, agg, raw). length (items (req_payload r))) (snd (create_requests to_payload chunks lims)) =
   map (\<lambda>(agg, raw). length agg + length raw) chunks"
proof (induction chunks arbitrary: lims)
  case Nil
  then show ?case by simp
next
  case (Cons c chunks)
  obtain agg raw where c: "c = (agg, raw)" by (cases c)
  from Cons.prems c have a: "length (snd (chunk_limits_items to_payload agg DPS_LIMIT_AGG)) = length agg"
    by (intro chunk_limits_items_length) (auto simp: DPS_LIMIT_AGG_def)
  from Cons.prems c have r: "length (snd (chunk_limits_items to_payload raw DPS_LIMIT)) = length raw"
    by (intro chunk_limits_items_length) (auto simp: DPS_LIMIT_def)
  from Cons.prems have rest: "\<forall>(agg, raw) \<in> set chunks. distinct (map qid agg) \<and> distinct (map qid raw) \<and>
       (\<forall>q \<in> set agg \<union> set raw. 0 \<le> capped_limit q)" by simp
  show ?case using a r Cons.IH[OF rest] c
    by (simp add: split_def)
qed

lemma part_subset: "set (map snd (filter P (enumerate m seq))) \<subseteq> set seq"
  by (induction seq arbitrary: m) auto

lemma part_distinct:
  "distinct (map f seq) \<Longrightarrow> distinct (map f (map snd (filter P (enumerate m seq))))"
proof (induction seq arbitrary: m)
  case Nil
  then show ?case by simp
next
  case (Cons x xs)
  from part_subset[of P "Suc m" xs] Cons.prems
  have "f x \<notin> f ` set (map snd (filter P (enumerate (Suc m) xs)))" by auto
  with Cons show ?case by (auto simp: image_image)
qed

lemma part_length:
  "length (filter (\<lambda>(k, x). Q k) (enumerate m seq)) = length (filter Q [m..<m + length seq])"
proof (induction seq arbitrary: m)
  case Nil
  then show ?case by simp
next
  case (Cons x xs)
  have "[m..<m + length (x # xs)] = m # [Suc m..<m + length (x # xs)]"
    by (rule upt_conv_Cons) simp
  then have "[m..<m + length (x # xs)] = m # [Suc m..<Suc m + length xs]"
    by simp
  with Cons[of "Suc m"] show ?case by simp
qed

lemma split_into_n_parts_lengths:
  "map length (split_into_n_parts n seq) =
     map (\<lambda>i. length (filter (\<lambda>k. k mod n = i) [0..<length seq])) [0..<n]"
  using part_length[of _ 0 seq] by (simp add: split_into_n_parts_def)

lemma split_into_n_parts_parts:
  "part \<in> set (split_into_n_parts n seq) \<Longrightarrow> distinct (map qid seq) \<Longrightarrow>
   distinct (map qid part) \<and> set part \<subseteq> set seq"
  using part_subset part_distinct by (fastforce simp: split_into_n_parts_def)

lemma create_initial_tasks_item_counts:
  assumes "distinct (map qid (agg_queries args))" and "distinct (map qid (raw_queries args))"
    and "\<forall>q \<in> set (agg_queries args) \<union> set (raw_queries args). 0 \<le> capped_limit q"
  shows "map (\<lambda>(r, agg, raw). length (items (req_payload r))) (snd (create_initial_tasks to_payload args)) =
     (let n = nat (max (max_workers args) (py_ceil_div (int (length (all_queries args))) FETCH_TS_LIMIT))
      in map (\<lambda>i. length (filter (\<lambda>k. k mod n = i) [0..<length (agg_queries args)]) +
                   length (filter (\<lambda>k. k mod n = i) [0..<length (raw_queries args)])) [0..<n])"
proof -
  define n where "n = nat (max (max_workers args) (py_ceil_div (int (length (all_queries args))) FETCH_TS_LIMIT))"
  let ?chunks = "zip (split_into_n_parts n (agg_queries args)) (split_into_n_parts n (raw_queries args))"
  have ok: "\<forall>(agg, raw) \<in> set ?chunks. distinct (map qid agg) \<and> distinct (map qid raw) \<and>
       (\<forall>q \<in> set agg \<union> set raw. 0 \<le> capped_limit q)"
  proof (clarify)
    fix agg raw assume "(agg, raw) \<in> set ?chunks"
    then have "agg \<in> set (split_into_n_parts n (agg_queries args))"
      and "raw \<in> set (split_into_n_parts n (raw_queries args))"
      by (auto dest: set_zip_leftD set_zip_rightD)
    from split_into_n_parts_parts[OF this(1) assms(1)] split_into_n_parts_parts[OF this(2) assms(2)] assms(3)
    show "distinct (map qid agg) \<and> distinct (map qid raw) \<and>
       (\<forall>q \<in> set agg \<union> set raw. 0 \<le> capped_limit q)" by blast
  qed
  have "map (\<lambda>(agg, raw). length agg + length raw) ?chunks =
      map (\<lambda>(a, r). a + r) (zip (map length (split_into_n_parts n (agg_queries args)))
                                (map length (split_into_n_parts n (raw_queries args))))"
    by (simp add: zip_map_map split_def)
  also have "\<dots> = map (\<lambda>i. length (filter (\<lambda>k. k mod n = i) [0..<length (agg_queries args)]) +
                   length (filter (\<lambda>k. k mod n = i) [0..<length (raw_queries args)])) [0..<n]"
    unfolding split_into_n_parts_lengths by (simp add: zip_map_map zip_same_conv_map)
  finally show ?thesis
    using create_requests_item_counts[OF ok, of to_payload "[]"]
    by (simp add: create_initial_tasks_def n_def Let_def)
qed

lemma example_args_item_counts:
  "map (\<lambda>i. length (filter (\<lambda>k. k mod 2 = i) [0..<1]) +
              length (filter (\<lambda>k. k mod 2 = i) [0..<199])) [0..<2] = [101, 99]"
  by code_simp

text \<open>
  Claim C4 does not hold of the code. With two workers, one aggregate query and 199 raw
  queries, \<^verbatim>\<open>n_queries\<close> is \<open>max 2 \<lceil>200 / 100\<rceil> = 2\<close>: the first chunk pair holds the
  aggregate query and 100 raw queries, and the first initial request has 101 items, one more
  than \<^verbatim>\<open>FETCH_TS_LIMIT\<close>. The second has 99.
\<close>

theorem create_initial_tasks_over_fetch_ts_limit:
  "map (\<lambda>(request, chunk_agg_qs, chunk_raw_qs). length (items (req_payload request)))
     (snd (create_initial_tasks to_payload example_args)) = [101, 99]"
proof -
  have q: "map qid (raw_queries example_args) = [1..<200]"
    by (simp add: example_args_def example_query_def comp_def)
  have d: "distinct (map qid (agg_queries example_args))" "distinct (map qid (raw_queries example_args))"
    unfolding q by (simp_all add: example_args_def)
  have c: "\<forall>q \<in> set (agg_queries example_args) \<union> set (raw_queries example_args). 0 \<le> capped_limit q"
    by (auto simp: example_args_def example_query_def capped_limit_def)
  have n: "nat (max (max_workers example_args)
      (py_ceil_div (int (length (all_queries example_args))) FETCH_TS_LIMIT)) = 2"
    by (simp add: example_args_def py_ceil_div_def FETCH_TS_LIMIT_def)
  have l: "length (agg_queries example_args) = 1" "length (raw_queries example_args) = 199"
    by (simp_all add: example_args_def)
  show ?thesis
    unfolding create_initial_tasks_item_counts[OF d c] Let_def n l by (rule example_args_item_counts)
qed

section \<open>Chunking mode: the first phase of \<^verbatim>\<open>fetch_all\<close>\<close>

text \<open>
  \<^verbatim>\<open>ChunkingDpsFetcher._handle_missing_ts\<close>. An identifier tuple
  \<^verbatim>\<open>("id", n)\<close> or \<^verbatim>\<open>("externalId", s)\<close> is a value of \<open>ts_identifier\<close>; a
  response item without an external id adds no identifier a query can have. A set of query
  objects is the list of its members in insertion order, compared by identity. The queries
  are objects that the method marks in place: the fourth component of the result gives the
  queries of the chunk as the call leaves them.
\<close>

definition not_missing :: "dps_response_item list \<Rightarrow> ts_identifier list" where
  "not_missing res =
     map (\<lambda>r. Id (res_id r)) res @
     concat (map (\<lambda>r. case res_externalId r of None \<Rightarrow> [] | Some x \<Rightarrow> [ExternalId x]) res)"

definition set_add :: "ts_query \<Rightarrow> ts_query list \<Rightarrow> ts_query list" where
  "set_add q s = (if qid q \<in> qid ` set s then s else s @ [q])"

definition set_update :: "ts_query list \<Rightarrow> ts_query list \<Rightarrow> ts_query list" where
  "set_update s qs = foldl (\<lambda>s q. set_add q s) s qs"

definition handle_missing_ts ::
  "dps_response_item list \<Rightarrow> ts_query list \<Rightarrow> ts_query list \<Rightarrow>
   ts_query list \<times> ts_query list \<times> ts_query list \<times> ts_query list" where
  "handle_missing_ts res agg_qs raw_qs =
     (let marked = map (\<lambda>q. q\<lparr>is_missing := ident q \<notin> set (not_missing res)\<rparr>);
          to_raise = set_update []
             (filter (\<lambda>q. is_missing q \<and> \<not> ignore_unknown_ids q) (marked (agg_qs @ raw_qs)))
      in (filter (\<lambda>q. \<not> is_missing q) (marked agg_qs),
          filter (\<lambda>q. \<not> is_missing q) (marked raw_qs),
          to_raise,
          marked (agg_qs @ raw_qs)))"

text \<open>\<^verbatim>\<open>_update_queries_is_string\<close>.\<close>

definition is_string_ids :: "dps_response_item list \<Rightarrow> ts_identifier list" where
  "is_string_ids res =
     map (\<lambda>r. Id (res_id r)) (filter res_isString res) @
     concat (map (\<lambda>r. case res_externalId r of None \<Rightarrow> [] | Some x \<Rightarrow> [ExternalId x])
               (filter res_isString res))"

definition update_queries_is_string :: "dps_response_item list \<Rightarrow> ts_query list \<Rightarrow> ts_query list" where
  "update_queries_is_string res queries =
     map (\<lambda>q. q\<lparr>is_string := ident q \<in> set (is_string_ids res)\<rparr>) queries"

text \<open>
  \<^verbatim>\<open>_create_ts_tasks_and_handle_missing\<close>. The task lookup is an association list in
  insertion order keyed by the identity of the query; the constructor
  \<^verbatim>\<open>query.ts_task_type\<close> is not among the sources and is the parameter
  \<open>ts_task_type\<close>; \<^verbatim>\<open>initial_query_limits[query]\<close> raises \<^verbatim>\<open>KeyError\<close> for a
  query without an entry. The third component of the result gives the queries of the chunk
  as the call leaves them.
\<close>

fun lookup_set :: "nat \<Rightarrow> 'v \<Rightarrow> (nat \<times> 'v) list \<Rightarrow> (nat \<times> 'v) list" where
  "lookup_set k v [] = [(k, v)]"
| "lookup_set k v ((k', v') # d) = (if k' = k then (k', v) # d else (k', v') # lookup_set k v d)"

definition lookup_update :: "(nat \<times> 'v) list \<Rightarrow> (nat \<times> 'v) list \<Rightarrow> (nat \<times> 'v) list" where
  "lookup_update d kvs = foldl (\<lambda>d (k, v). lookup_set k v d) d kvs"

fun ts_tasks_of ::
  "(ts_query \<Rightarrow> dps_response_item \<Rightarrow> int \<Rightarrow> ts_task) \<Rightarrow> (ts_query \<times> int) list \<Rightarrow>
   (dps_response_item \<times> ts_query) list \<Rightarrow> task_lookup \<Rightarrow> py_error + task_lookup" where
  "ts_tasks_of ts_task_type initial_query_limits [] ts_tasks = Inr ts_tasks"
| "ts_tasks_of ts_task_type initial_query_limits ((res, q) # rest) ts_tasks =
     (case map_of (map (\<lambda>(q, lim). (qid q, lim)) initial_query_limits) (qid q) of
        None \<Rightarrow> Inl KeyError
      | Some first_limit \<Rightarrow>
          ts_tasks_of ts_task_type initial_query_limits rest
            (lookup_set (qid q) (ts_task_type q res first_limit) ts_tasks))"

definition create_ts_tasks_and_handle_missing ::
  "(ts_query \<Rightarrow> dps_response_item \<Rightarrow> int \<Rightarrow> ts_task) \<Rightarrow> dps_response_item list \<Rightarrow>
   ts_query list \<Rightarrow> ts_query list \<Rightarrow> (ts_query \<times> int) list \<Rightarrow>
   py_error + (task_lookup \<times> ts_query list \<times> ts_query list)" where
  "create_ts_tasks_and_handle_missing ts_task_type results chunk_agg_qs chunk_raw_qs initial_query_limits =
     (case (if length results = length chunk_agg_qs + length chunk_raw_qs
            then (chunk_agg_qs, chunk_raw_qs, [], chunk_agg_qs @ chunk_raw_qs)
            else handle_missing_ts results chunk_agg_qs chunk_raw_qs) of
        (agg_qs, raw_qs, to_raise, objs) \<Rightarrow>
          (case ts_tasks_of ts_task_type initial_query_limits
                  (zip results (agg_qs @ update_queries_is_string results raw_qs)) [] of
             Inl e \<Rightarrow> Inl e
           | Inr ts_tasks \<Rightarrow> Inr (ts_tasks, to_raise, objs)))"

text \<open>
  The loop \<^verbatim>\<open>for future in as_completed(initial_futures_dct)\<close> of \<^verbatim>\<open>fetch_all\<close>
  and the check that follows it. The futures are listed in the order in which they complete,
  each with what \<^verbatim>\<open>future.result()\<close> does (it returns the items or raises) and with its
  pair of query chunks. The state holds the two locals of \<^verbatim>\<open>fetch_all\<close> and the query
  objects as the loop has left them.
\<close>

record phase_a_state =
  pa_ts_task_lookup :: task_lookup
  missing_to_raise :: "ts_query list"
  query_objs :: "ts_query list"

type_synonym initial_future = "(py_error + dps_response_item list) \<times> ts_query list \<times> ts_query list"

fun for_as_completed ::
  "(ts_query \<Rightarrow> dps_response_item \<Rightarrow> int \<Rightarrow> ts_task) \<Rightarrow> (ts_query \<times> int) list \<Rightarrow>
   initial_future list \<Rightarrow> phase_a_state \<Rightarrow> py_error + phase_a_state" where
  "for_as_completed ts_task_type initial_query_limits [] s = Inr s"
| "for_as_completed ts_task_type initial_query_limits ((outcome, chunk_agg_qs, chunk_raw_qs) # futures) s =
     (case outcome of
        Inl e \<Rightarrow> Inl e
      | Inr res \<Rightarrow>
          (case create_ts_tasks_and_handle_missing ts_task_type res chunk_agg_qs chunk_raw_qs
                  initial_query_limits of
             Inl e \<Rightarrow> Inl e
           | Inr (new_ts_tasks, chunk_missing, objs) \<Rightarrow>
               for_as_completed ts_task_type initial_query_limits futures
                 \<lparr>pa_ts_task_lookup = lookup_update (pa_ts_task_lookup s) new_ts_tasks,
                  missing_to_raise = set_update (missing_to_raise s) chunk_missing,
                  query_objs = query_objs s @ objs\<rparr>))"

definition fetch_all_initial ::
  "(ts_query \<Rightarrow> dps_response_item \<Rightarrow> int \<Rightarrow> ts_task) \<Rightarrow> (ts_query \<times> int) list \<Rightarrow>
   initial_future list \<Rightarrow> py_error + phase_a_state" where
  "fetch_all_initial ts_task_type initial_query_limits futures =
     (case for_as_completed ts_task_type initial_query_limits futures
             \<lparr>pa_ts_task_lookup = [], missing_to_raise = [], query_objs = []\<rparr> of
        Inl e \<Rightarrow> Inl e
      | Inr s \<Rightarrow>
          if missing_to_raise s \<noteq> []
          then Inl (CogniteNotFoundError (map ident (missing_to_raise s)))
          else Inr s)"


text \<open>
  The queries of a chunk, and those of them whose identifier is, or is not, among the
  identifiers that the response to the chunk returns. A response is faithful when it has one
  item for each query whose identifier it returns.
\<close>

definition chunk_res :: "initial_future \<Rightarrow> dps_response_item list" where
  "chunk_res f = (case fst f of Inl e \<Rightarrow> [] | Inr res \<Rightarrow> res)"

definition chunk_qs :: "initial_future \<Rightarrow> ts_query list" where
  "chunk_qs f = fst (snd f) @ snd (snd f)"

definition missing_of_chunk :: "initial_future \<Rightarrow> ts_query list" where
  "missing_of_chunk f = filter (\<lambda>q. ident q \<notin> set (not_missing (chunk_res f))) (chunk_qs f)"

definition present_of_chunk :: "initial_future \<Rightarrow> ts_query list" where
  "present_of_chunk f = filter (\<lambda>q. ident q \<in> set (not_missing (chunk_res f))) (chunk_qs f)"

definition returned_faithfully :: "initial_future \<Rightarrow> bool" where
  "returned_faithfully f =
     (case fst f of Inl e \<Rightarrow> False | Inr res \<Rightarrow> length res = length (present_of_chunk f))"

lemma filter_all_of_length: "length (filter P xs) = length xs \<Longrightarrow> filter P xs = xs"
proof -
  assume "length (filter P xs) = length xs"
  with sum_length_filter_compl[of P xs] have "filter (\<lambda>x. \<not> P x) xs = []" by simp
  then have "\<forall>x \<in> set xs. P x" by (simp add: filter_empty_conv)
  then show ?thesis by simp
qed

lemma set_add_new: "qid q \<notin> qid ` set s \<Longrightarrow> set_add q s = s @ [q]"
  by (simp add: set_add_def)

lemma set_update_distinct: "distinct (map qid (s @ qs)) \<Longrightarrow> set_update s qs = s @ qs"
proof (induction qs arbitrary: s)
  case Nil
  then show ?case by (simp add: set_update_def)
next
  case (Cons q qs)
  from Cons.prems have new: "qid q \<notin> qid ` set s" by auto
  from Cons.prems have "distinct (map qid ((s @ [q]) @ qs))" by auto
  from Cons.IH[OF this] new show ?case by (simp add: set_update_def set_add_new)
qed

lemma lookup_set_new: "k \<notin> fst ` set d \<Longrightarrow> lookup_set k v d = d @ [(k, v)]"
  by (induction d) auto

lemma lookup_update_distinct: "distinct (map fst (d @ kvs)) \<Longrightarrow> lookup_update d kvs = d @ kvs"
proof (induction kvs arbitrary: d)
  case Nil
  then show ?case by (simp add: lookup_update_def)
next
  case (Cons kv kvs)
  obtain k v where kv: "kv = (k, v)" by (cases kv)
  from Cons.prems kv have new: "k \<notin> fst ` set d" by auto
  from Cons.prems kv have "distinct (map fst ((d @ [(k, v)]) @ kvs))" by auto
  from Cons.IH[OF this] new kv show ?case by (simp add: lookup_update_def lookup_set_new)
qed

lemma ts_tasks_of_new:
  "\<forall>q \<in> snd ` set pairs. qid q \<in> qid ` fst ` set lims \<Longrightarrow>
   distinct (map fst acc @ map (qid \<circ> snd) pairs) \<Longrightarrow>
   \<exists>tasks. ts_tasks_of tt lims pairs acc = Inr tasks \<and>
           map fst tasks = map fst acc @ map (qid \<circ> snd) pairs"
proof (induction pairs arbitrary: acc)
  case Nil
  then show ?case by simp
next
  case (Cons p pairs)
  obtain r q where p: "p = (r, q)" by (cases p)
  from Cons.prems(1) p have "qid q \<in> fst ` set (map (\<lambda>(q, lim). (qid q, lim)) lims)"
    by (force simp: image_iff)
  then obtain l where l: "map_of (map (\<lambda>(q, lim). (qid q, lim)) lims) (qid q) = Some l"
    by (metis map_of_eq_None_iff not_None_eq)
  from Cons.prems(2) p have new: "qid q \<notin> fst ` set acc" by auto
  have acc': "lookup_set (qid q) (tt q r l) acc = acc @ [(qid q, tt q r l)]"
    by (rule lookup_set_new[OF new])
  from Cons.prems(2) p have d: "distinct (map fst (acc @ [(qid q, tt q r l)]) @ map (qid \<circ> snd) pairs)"
    by (auto simp: comp_def)
  from Cons.prems(1) have k: "\<forall>q \<in> snd ` set pairs. qid q \<in> qid ` fst ` set lims" by auto
  from Cons.IH[OF k d] p l acc' show ?case by simp
qed

lemma chunk_ok:
  fixes res agg raw
  defines "f \<equiv> (Inr res, agg, raw)"
  assumes faithful: "returned_faithfully f"
    and keys: "\<forall>q \<in> set (chunk_qs f). qid q \<in> qid ` fst ` set lims"
    and unmarked: "\<forall>q \<in> set (chunk_qs f). \<not> is_missing q"
    and dist: "distinct (map qid (chunk_qs f))"
  shows "\<exists>tasks to_raise objs.
           create_ts_tasks_and_handle_missing tt res agg raw lims = Inr (tasks, to_raise, objs) \<and>
           map fst tasks = map qid (present_of_chunk f) \<and>
           map qid to_raise = map qid (filter (\<lambda>q. \<not> ignore_unknown_ids q) (missing_of_chunk f)) \<and>
           map ident to_raise = map ident (filter (\<lambda>q. \<not> ignore_unknown_ids q) (missing_of_chunk f)) \<and>
           map qid objs = map qid (chunk_qs f) \<and>
           map qid (filter is_missing objs) = map qid (missing_of_chunk f)"
proof -
  let ?nm = "not_missing res"
  let ?P = "\<lambda>q. ident q \<in> set ?nm"
  have res: "chunk_res f = res" and qs: "chunk_qs f = agg @ raw"
    by (simp_all add: chunk_res_def chunk_qs_def f_def)
  have pres: "present_of_chunk f = filter ?P (agg @ raw)"
    and miss: "missing_of_chunk f = filter (\<lambda>q. \<not> ?P q) (agg @ raw)"
    by (simp_all add: present_of_chunk_def missing_of_chunk_def res qs)
  have fstf: "fst f = Inr res" by (simp add: f_def)
  from faithful have "length res = length (present_of_chunk f)"
    unfolding returned_faithfully_def fstf by simp
  then have len: "length res = length (filter ?P (agg @ raw))"
    unfolding pres .
  show ?thesis
  proof (cases "length res = length agg + length raw")
    case True
    with len have "filter ?P (agg @ raw) = agg @ raw"
      by (intro filter_all_of_length) simp
    then have all: "\<forall>q \<in> set (agg @ raw). ?P q" by (metis filter_id_conv)
    then have pres': "present_of_chunk f = agg @ raw" and miss': "missing_of_chunk f = []"
      by (simp_all add: pres miss)
    let ?pairs = "zip res (agg @ update_queries_is_string res raw)"
    have snd_pairs: "map snd ?pairs = agg @ update_queries_is_string res raw"
      using True by (simp add: update_queries_is_string_def)
    have qids: "map (qid \<circ> snd) ?pairs = map qid (agg @ raw)"
      using arg_cong[OF snd_pairs, of "map qid"] by (simp add: update_queries_is_string_def comp_def)
    have k: "\<forall>q \<in> snd ` set ?pairs. qid q \<in> qid ` fst ` set lims"
    proof
      fix q assume "q \<in> snd ` set ?pairs"
      then have "q \<in> set (map snd ?pairs)" by simp
      then have "qid q \<in> set (map qid (agg @ raw))"
        unfolding snd_pairs by (auto simp: update_queries_is_string_def)
      with keys qs show "qid q \<in> qid ` fst ` set lims" by auto
    qed
    have d: "distinct (map fst ([] :: task_lookup) @ map (qid \<circ> snd) ?pairs)"
      using dist qids qs by simp
    from ts_tasks_of_new[OF k d, of tt] obtain tasks where
      t: "ts_tasks_of tt lims ?pairs [] = Inr tasks" and tk: "map fst tasks = map qid (agg @ raw)"
      using qids by auto
    have um: "filter is_missing (agg @ raw) = []"
      using unmarked qs by (simp add: filter_empty_conv)
    have "create_ts_tasks_and_handle_missing tt res agg raw lims = Inr (tasks, [], agg @ raw)"
      using True t by (simp add: create_ts_tasks_and_handle_missing_def)
    with tk um pres' miss' qs show ?thesis by simp
  next
    case False
    let ?mark = "\<lambda>q. q\<lparr>is_missing := ident q \<notin> set ?nm\<rparr>"
    let ?agg = "filter (\<lambda>q. \<not> is_missing q) (map ?mark agg)"
    let ?raw = "filter (\<lambda>q. \<not> is_missing q) (map ?mark raw)"
    let ?tr = "filter (\<lambda>q. is_missing q \<and> \<not> ignore_unknown_ids q) (map ?mark (agg @ raw))"
    have agg: "?agg = map ?mark (filter ?P agg)" and raw: "?raw = map ?mark (filter ?P raw)"
      by (simp_all add: filter_map comp_def)
    have tr: "?tr = map ?mark (filter (\<lambda>q. \<not> ignore_unknown_ids q) (filter (\<lambda>q. \<not> ?P q) (agg @ raw)))"
      by (simp add: filter_map comp_def conj_commute)
    have mark_qid: "\<And>xs. map qid (map ?mark xs) = map qid xs"
      and mark_ident: "\<And>xs. map ident (map ?mark xs) = map ident xs"
      by simp_all
    have dq: "distinct (map qid (agg @ raw))" using dist qs by simp
    have "distinct (map qid (filter (\<lambda>q. \<not> ignore_unknown_ids q) (filter (\<lambda>q. \<not> ?P q) (agg @ raw))))"
      by (intro distinct_map_filter dq)
    then have dtr: "distinct (map qid ([] @ ?tr))"
      unfolding tr append_Nil mark_qid .
    have tr_set: "set_update [] ?tr = ?tr"
      using set_update_distinct[OF dtr] by simp
    have hm: "handle_missing_ts res agg raw = (?agg, ?raw, ?tr, map ?mark (agg @ raw))"
      by (simp add: handle_missing_ts_def Let_def tr_set del: map_append filter_append)
    let ?pairs = "zip res (?agg @ update_queries_is_string res ?raw)"
    have len2: "length res = length (?agg @ update_queries_is_string res ?raw)"
      using len by (simp add: agg raw update_queries_is_string_def)
    have snd_pairs: "map snd ?pairs = ?agg @ update_queries_is_string res ?raw"
      using len2 by (simp del: map_append filter_append)
    have qids: "map (qid \<circ> snd) ?pairs = map qid (filter ?P (agg @ raw))"
      using arg_cong[OF snd_pairs, of "map qid"]
      by (simp add: agg raw update_queries_is_string_def comp_def)
    have k: "\<forall>q \<in> snd ` set ?pairs. qid q \<in> qid ` fst ` set lims"
    proof
      fix q assume "q \<in> snd ` set ?pairs"
      then have "qid q \<in> set (map (qid \<circ> snd) ?pairs)" by auto
      then have "qid q \<in> set (map qid (agg @ raw))" unfolding qids by auto
      with keys qs show "qid q \<in> qid ` fst ` set lims" by auto
    qed
    have "distinct (map qid (filter ?P (agg @ raw)))"
      by (intro distinct_map_filter dq)
    then have d: "distinct (map fst ([] :: task_lookup) @ map (qid \<circ> snd) ?pairs)"
      unfolding qids list.map append_Nil .
    from ts_tasks_of_new[OF k d, of tt] obtain tasks where
      t: "ts_tasks_of tt lims ?pairs [] = Inr tasks"
      and tk: "map fst tasks = map qid (filter ?P (agg @ raw))"
      using qids by auto
    have c: "create_ts_tasks_and_handle_missing tt res agg raw lims =
        Inr (tasks, ?tr, map ?mark (agg @ raw))"
      using False t hm by (simp add: create_ts_tasks_and_handle_missing_def)
    have m: "filter is_missing (map ?mark (agg @ raw)) = map ?mark (filter (\<lambda>q. \<not> ?P q) (agg @ raw))"
      by (simp add: filter_map comp_def)
    show ?thesis
      unfolding c pres miss qs
      using tk by (simp add: tr m mark_qid mark_ident del: map_append filter_append)
  qed
qed


lemma distinct_mid_filter:
  "distinct (A @ map g xs @ R) \<Longrightarrow> distinct (A @ map g (filter P xs) @ R)"
  by (auto simp: distinct_map_filter)

lemma for_as_completed_ok:
  assumes "\<forall>f \<in> set futures. returned_faithfully f"
    and "\<forall>q \<in> set (concat (map chunk_qs futures)). qid q \<in> qid ` fst ` set lims \<and> \<not> is_missing q"
    and "distinct (map fst (pa_ts_task_lookup s) @ map qid (concat (map chunk_qs futures)))"
    and "distinct (map qid (missing_to_raise s) @ map qid (concat (map chunk_qs futures)))"
  shows "\<exists>s'. for_as_completed tt lims futures s = Inr s' \<and>
     map fst (pa_ts_task_lookup s') =
       map fst (pa_ts_task_lookup s) @ map qid (concat (map present_of_chunk futures)) \<and>
     map qid (missing_to_raise s') =
       map qid (missing_to_raise s) @
       map qid (filter (\<lambda>q. \<not> ignore_unknown_ids q) (concat (map missing_of_chunk futures))) \<and>
     map ident (missing_to_raise s') =
       map ident (missing_to_raise s) @
       map ident (filter (\<lambda>q. \<not> ignore_unknown_ids q) (concat (map missing_of_chunk futures))) \<and>
     map qid (query_objs s') = map qid (query_objs s) @ map qid (concat (map chunk_qs futures)) \<and>
     map qid (filter is_missing (query_objs s')) =
       map qid (filter is_missing (query_objs s)) @ map qid (concat (map missing_of_chunk futures))"
  using assms
proof (induction futures arbitrary: s)
  case Nil
  then show ?case by simp
next
  case (Cons f futures)
  obtain outcome agg raw where f: "f = (outcome, agg, raw)" by (metis prod_cases3)
  from Cons.prems(1) f obtain res where out: "outcome = Inr res"
    by (auto simp: returned_faithfully_def split: sum.splits)
  let ?f = "(Inr res, agg, raw) :: initial_future"
  let ?R = "map qid (concat (map chunk_qs futures))"
  let ?ign = "\<lambda>q. \<not> ignore_unknown_ids q"
  have ff: "f = ?f" using f out by simp
  have faithful: "returned_faithfully ?f" using Cons.prems(1) ff by simp
  have keys: "\<forall>q \<in> set (chunk_qs ?f). qid q \<in> qid ` fst ` set lims"
    and unmarked: "\<forall>q \<in> set (chunk_qs ?f). \<not> is_missing q"
    using Cons.prems(2) ff by auto
  have D1: "distinct (map fst (pa_ts_task_lookup s) @ map qid (chunk_qs ?f) @ ?R)"
    and D2: "distinct (map qid (missing_to_raise s) @ map qid (chunk_qs ?f) @ ?R)"
    using Cons.prems(3,4) ff by simp_all
  from D1 have dist: "distinct (map qid (chunk_qs ?f))" by simp
  from chunk_ok[OF faithful keys unmarked dist, of tt] obtain tasks to_raise objs where
    c: "create_ts_tasks_and_handle_missing tt res agg raw lims = Inr (tasks, to_raise, objs)"
    and tk: "map fst tasks = map qid (present_of_chunk ?f)"
    and trq: "map qid to_raise = map qid (filter ?ign (missing_of_chunk ?f))"
    and tri: "map ident to_raise = map ident (filter ?ign (missing_of_chunk ?f))"
    and oq: "map qid objs = map qid (chunk_qs ?f)"
    and om: "map qid (filter is_missing objs) = map qid (missing_of_chunk ?f)"
    by blast
  define s1 where "s1 = \<lparr>pa_ts_task_lookup = lookup_update (pa_ts_task_lookup s) tasks,
       missing_to_raise = set_update (missing_to_raise s) to_raise,
       query_objs = query_objs s @ objs\<rparr>"
  have step: "for_as_completed tt lims (?f # futures) s = for_as_completed tt lims futures s1"
    using c by (simp add: s1_def)
  have P1: "distinct (map fst (pa_ts_task_lookup s) @ map qid (present_of_chunk ?f) @ ?R)"
    unfolding present_of_chunk_def by (rule distinct_mid_filter[OF D1])
  have P2: "distinct (map qid (missing_to_raise s) @ map qid (filter ?ign (missing_of_chunk ?f)) @ ?R)"
    unfolding missing_of_chunk_def by (intro distinct_mid_filter D2)
  from P1 have "distinct (map fst (pa_ts_task_lookup s @ tasks))" by (auto simp: tk)
  then have l1: "lookup_update (pa_ts_task_lookup s) tasks = pa_ts_task_lookup s @ tasks"
    by (rule lookup_update_distinct)
  from P2 have "distinct (map qid (missing_to_raise s @ to_raise))" by (auto simp: trq)
  then have m1: "set_update (missing_to_raise s) to_raise = missing_to_raise s @ to_raise"
    by (rule set_update_distinct)
  have s1_lookup: "map fst (pa_ts_task_lookup s1) = map fst (pa_ts_task_lookup s) @ map qid (present_of_chunk ?f)"
    by (simp add: s1_def l1 tk)
  have s1_mq: "map qid (missing_to_raise s1) =
      map qid (missing_to_raise s) @ map qid (filter ?ign (missing_of_chunk ?f))"
    by (simp add: s1_def m1 trq)
  have s1_mi: "map ident (missing_to_raise s1) =
      map ident (missing_to_raise s) @ map ident (filter ?ign (missing_of_chunk ?f))"
    by (simp add: s1_def m1 tri)
  have s1_oq: "map qid (query_objs s1) = map qid (query_objs s) @ map qid (chunk_qs ?f)"
    by (simp add: s1_def oq)
  have s1_om: "map qid (filter is_missing (query_objs s1)) =
      map qid (filter is_missing (query_objs s)) @ map qid (missing_of_chunk ?f)"
    by (simp add: s1_def om)
  have I1: "\<forall>f \<in> set futures. returned_faithfully f" using Cons.prems(1) by simp
  have I2: "\<forall>q \<in> set (concat (map chunk_qs futures)). qid q \<in> qid ` fst ` set lims \<and> \<not> is_missing q"
    using Cons.prems(2) by simp
  have I3: "distinct (map fst (pa_ts_task_lookup s1) @ ?R)"
    unfolding s1_lookup using P1 by simp
  have I4: "distinct (map qid (missing_to_raise s1) @ ?R)"
    unfolding s1_mq using P2 by simp
  from Cons.IH[OF I1 I2 I3 I4] obtain s' where
    r: "for_as_completed tt lims futures s1 = Inr s'"
    and r1: "map fst (pa_ts_task_lookup s') =
       map fst (pa_ts_task_lookup s1) @ map qid (concat (map present_of_chunk futures))"
    and r2: "map qid (missing_to_raise s') =
       map qid (missing_to_raise s1) @ map qid (filter ?ign (concat (map missing_of_chunk futures)))"
    and r3: "map ident (missing_to_raise s') =
       map ident (missing_to_raise s1) @ map ident (filter ?ign (concat (map missing_of_chunk futures)))"
    and r4: "map qid (query_objs s') = map qid (query_objs s1) @ ?R"
    and r5: "map qid (filter is_missing (query_objs s')) =
       map qid (filter is_missing (query_objs s1)) @ map qid (concat (map missing_of_chunk futures))"
    by blast
  show ?case
    by (intro exI[of _ s'] conjI)
      (simp_all only: ff step r r1 r2 r3 r4 r5 s1_lookup s1_mq s1_mi s1_oq s1_om
         list.map concat.simps append_assoc map_append filter_append)
qed

lemma for_as_completed_raises:
  "for_as_completed tt lims (completed @ (Inl e, agg, raw) # futures) s =
     (case for_as_completed tt lims completed s of Inl e' \<Rightarrow> Inl e' | Inr s' \<Rightarrow> Inl e)"
proof (induction completed arbitrary: s)
  case Nil
  then show ?case by simp
next
  case (Cons f completed)
  obtain outcome agg' raw' where f: "f = (outcome, agg', raw')" by (metis prod_cases3)
  show ?case using Cons.IH f by (simp split: sum.splits prod.splits)
qed


lemma filter_disjoint_image:
  "distinct (map g xs) \<Longrightarrow> g ` set (filter (\<lambda>x. \<not> P x) xs) \<inter> g ` set (filter P xs) = {}"
  by (auto simp: distinct_map inj_on_def)

lemma missing_of_chunk_subset: "set (missing_of_chunk f) \<subseteq> set (chunk_qs f)"
  and present_of_chunk_subset: "set (present_of_chunk f) \<subseteq> set (chunk_qs f)"
  by (auto simp: missing_of_chunk_def present_of_chunk_def)

lemma missing_present_disjoint:
  "distinct (map qid (concat (map chunk_qs futures))) \<Longrightarrow>
   qid ` set (concat (map missing_of_chunk futures)) \<inter> qid ` set (concat (map present_of_chunk futures)) = {}"
proof (induction futures)
  case Nil
  then show ?case by simp
next
  case (Cons f futures)
  from Cons.prems have d: "distinct (map qid (chunk_qs f))"
    and dr: "distinct (map qid (concat (map chunk_qs futures)))"
    and dj: "qid ` set (chunk_qs f) \<inter> qid ` set (concat (map chunk_qs futures)) = {}"
    by simp_all
  have a: "qid ` set (missing_of_chunk f) \<inter> qid ` set (present_of_chunk f) = {}"
    unfolding missing_of_chunk_def present_of_chunk_def
    using filter_disjoint_image[OF d, of "\<lambda>q. ident q \<in> set (not_missing (chunk_res f))"] by simp
  have mr: "set (concat (map missing_of_chunk futures)) \<subseteq> set (concat (map chunk_qs futures))"
    and pr: "set (concat (map present_of_chunk futures)) \<subseteq> set (concat (map chunk_qs futures))"
    using missing_of_chunk_subset present_of_chunk_subset by fastforce+
  have b: "qid ` set (missing_of_chunk f) \<inter> qid ` set (concat (map present_of_chunk futures)) = {}"
    using dj pr missing_of_chunk_subset[of f] by blast
  have c: "qid ` set (concat (map missing_of_chunk futures)) \<inter> qid ` set (present_of_chunk f) = {}"
    using dj mr present_of_chunk_subset[of f] by blast
  from a b c Cons.IH[OF dr] show ?case by (simp add: image_Un Int_Un_distrib Int_Un_distrib2)
qed

text \<open>
  Claim C6. Let every initial future return a faithful response, every query of the chunks be
  a distinct object, unmarked at the start and with an initial limit. Then the loop runs to
  its end over all the futures, and afterwards: the queries marked missing are exactly those
  whose identifier the response to their chunk does not return; a task is created for
  exactly the others, so none for a missing query; and if a missing query has
  \<^verbatim>\<open>ignore_unknown_ids\<close> false, the one error raised is a \<^verbatim>\<open>CogniteNotFoundError\<close>
  that names every such identifier of every chunk (the model lists them in the order of
  insertion), while with none there is no error. By \<open>for_as_completed_raises\<close>, a future
  that raises ends the loop with its own error, whatever was collected before.
\<close>

theorem fetch_all_initial_missing:
  fixes futures initial_query_limits ts_task_type
  defines "missing \<equiv> concat (map missing_of_chunk futures)"
  defines "to_raise \<equiv> filter (\<lambda>q. \<not> ignore_unknown_ids q) (concat (map missing_of_chunk futures))"
  assumes "\<forall>f \<in> set futures. returned_faithfully f"
    and "\<forall>q \<in> set (concat (map chunk_qs futures)).
           qid q \<in> qid ` fst ` set initial_query_limits \<and> \<not> is_missing q"
    and "distinct (map qid (concat (map chunk_qs futures)))"
  shows "\<exists>s. for_as_completed ts_task_type initial_query_limits futures
                \<lparr>pa_ts_task_lookup = [], missing_to_raise = [], query_objs = []\<rparr> = Inr s \<and>
           map qid (filter is_missing (query_objs s)) = map qid missing \<and>
           map qid (missing_to_raise s) = map qid to_raise \<and>
           map fst (pa_ts_task_lookup s) = map qid (concat (map present_of_chunk futures)) \<and>
           (\<forall>q \<in> set missing. qid q \<notin> fst ` set (pa_ts_task_lookup s)) \<and>
           fetch_all_initial ts_task_type initial_query_limits futures =
             (if to_raise = [] then Inr s else Inl (CogniteNotFoundError (map ident to_raise)))"
proof -
  let ?s0 = "\<lparr>pa_ts_task_lookup = [], missing_to_raise = [], query_objs = []\<rparr>"
  have d3: "distinct (map fst (pa_ts_task_lookup ?s0) @ map qid (concat (map chunk_qs futures)))"
    and d4: "distinct (map qid (missing_to_raise ?s0) @ map qid (concat (map chunk_qs futures)))"
    using assms(5) by simp_all
  from for_as_completed_ok[OF assms(3) assms(4) d3 d4, of ts_task_type] obtain s where
    r: "for_as_completed ts_task_type initial_query_limits futures ?s0 = Inr s"
    and r1: "map fst (pa_ts_task_lookup s) = map qid (concat (map present_of_chunk futures))"
    and r2: "map qid (missing_to_raise s) = map qid to_raise"
    and r3: "map ident (missing_to_raise s) = map ident to_raise"
    and r5: "map qid (filter is_missing (query_objs s)) = map qid missing"
    unfolding missing_def to_raise_def by auto
  from r2 have e: "missing_to_raise s = [] \<longleftrightarrow> to_raise = []"
    by (metis map_is_Nil_conv)
  have f: "fetch_all_initial ts_task_type initial_query_limits futures =
             (if to_raise = [] then Inr s else Inl (CogniteNotFoundError (map ident to_raise)))"
    using r e r3 by (simp add: fetch_all_initial_def)
  have k: "\<forall>q \<in> set missing. qid q \<notin> fst ` set (pa_ts_task_lookup s)"
  proof
    fix q assume "q \<in> set missing"
    then have "qid q \<in> qid ` set (concat (map missing_of_chunk futures))"
      unfolding missing_def by (rule imageI)
    with missing_present_disjoint[OF assms(5)]
    have "qid q \<notin> qid ` set (concat (map present_of_chunk futures))" by blast
    then have "qid q \<notin> set (map qid (concat (map present_of_chunk futures)))" by simp
    then show "qid q \<notin> fst ` set (pa_ts_task_lookup s)"
      unfolding r1[symmetric] by simp
  qed
  from r r1 r2 r5 k f show ?thesis by blast
qed

text \<open>
  Two chunks. In the first, query 1 is missing and tolerates it; in the second, query 2 is
  missing and does not: the error names identifier 2 alone, after both chunks were handled.
\<close>

definition example_ts_task_type :: "ts_query \<Rightarrow> dps_response_item \<Rightarrow> int \<Rightarrow> ts_task" where
  "example_ts_task_type q res first_limit = \<lparr>query = q, is_done = False, has_limit = False\<rparr>"

definition example_response :: "int \<Rightarrow> dps_response_item" where
  "example_response n = \<lparr>res_id = n, res_externalId = None, res_isString = False, res_datapoints = []\<rparr>"

definition example_futures :: "initial_future list" where
  "example_futures =
     [(Inr [example_response 0], [example_query 0 False], [example_query 1 True]),
      (Inr [example_response 3], [],
       [(example_query 2 True)\<lparr>ignore_unknown_ids := False\<rparr>, example_query 3 True])]"

definition example_initial_query_limits :: "(ts_query \<times> int) list" where
  "example_initial_query_limits =
     [(example_query 0 False, 10000), (example_query 1 True, 50000),
      ((example_query 2 True)\<lparr>ignore_unknown_ids := False\<rparr>, 50000), (example_query 3 True, 50000)]"

theorem fetch_all_initial_missing_witness:
  "fetch_all_initial example_ts_task_type example_initial_query_limits example_futures =
     Inl (CogniteNotFoundError [Id 2]) \<and>
   (\<exists>s. for_as_completed example_ts_task_type example_initial_query_limits example_futures
          \<lparr>pa_ts_task_lookup = [], missing_to_raise = [], query_objs = []\<rparr> = Inr s \<and>
        map qid (filter is_missing (query_objs s)) = [1, 2] \<and>
        map fst (pa_ts_task_lookup s) = [0, 3])"
proof -
  have h1: "\<forall>f \<in> set example_futures. returned_faithfully f"
    by (simp add: example_futures_def returned_faithfully_def present_of_chunk_def chunk_res_def
        chunk_qs_def not_missing_def example_response_def example_query_def)
  have h2: "\<forall>q \<in> set (concat (map chunk_qs example_futures)).
           qid q \<in> qid ` fst ` set example_initial_query_limits \<and> \<not> is_missing q"
    by (simp add: example_futures_def chunk_qs_def example_initial_query_limits_def example_query_def)
  have h3: "distinct (map qid (concat (map chunk_qs example_futures)))"
    by (simp add: example_futures_def chunk_qs_def example_query_def)
  have m: "map qid (concat (map missing_of_chunk example_futures)) = [1, 2]"
    "map ident (filter (\<lambda>q. \<not> ignore_unknown_ids q) (concat (map missing_of_chunk example_futures))) = [Id 2]"
    "map qid (concat (map present_of_chunk example_futures)) = [0, 3]"
    by (simp_all add: example_futures_def missing_of_chunk_def present_of_chunk_def chunk_res_def
        chunk_qs_def not_missing_def example_response_def example_query_def)
  from m(2) have ne: "filter (\<lambda>q. \<not> ignore_unknown_ids q) (concat (map missing_of_chunk example_futures)) \<noteq> []"
    by auto
  from fetch_all_initial_missing[OF h1 h2 h3, of example_ts_task_type]
  show ?thesis unfolding m using ne by auto
qed

end
